theory Spec2Isabelle
  imports Complex_Main
begin

section \<open>Step Functions state base class: data model\<close>

text \<open>
  The development follows \<open>aws-stepfunctions/lib/states/state.ts\<close>. Objects of class
  \<open>State\<close> live in a heap (a list of records) and are referred to by their index;
  \<open>StateGraph\<close> objects are referred to by a graph identifier. Reference equality
  (\<open>===\<close>) of the source is equality of indices.
\<close>

type_synonym sid = nat
type_synonym gid = nat

text \<open>The enum \<open>QueryLanguage\<close> of \<open>../types\<close>.\<close>

datatype QueryLanguage = JSON_PATH | JSONATA

text \<open>The enum \<open>JitterType\<close> of \<open>../types\<close>.\<close>

datatype JitterType = JITTER_FULL | JITTER_NONE

text \<open>Values of TypeScript type \<open>any\<close> / \<open>object\<close> that the class only passes through.\<close>

datatype json =
    JNull
  | JBool bool
  | JNum int
  | JStr string
  | JArr "json list"
  | JObj "(string \<times> json) list"

text \<open>
  Every \<open>throw new UnscopedValidationError(...)\<close> of the source is one constructor, carrying
  the values interpolated into the message. \<open>NoSuchState\<close> has no counterpart in the
  source, where a reference always denotes a live object: it is what the model answers for
  an index outside the heap.
\<close>

datatype error =
    StateInOtherGraph string gid gid
  | AlreadyHasNext string
  | AlreadyHasDefault string
  | AllMustAppearAlone
  | QueryLanguageConflict string
  | JsonPathNoDollar string
  | NoSuchState sid

text \<open>
  \<open>RetryProps\<close> of \<open>../types\<close>. A \<open>Duration\<close> is held as its number of seconds, a
  \<open>number\<close> that is only passed through as a rational.
\<close>

record RetryProps =
  errors :: "string list option"
  interval :: "nat option"
  maxAttempts :: "nat option"
  backoffRate :: "rat option"
  maxDelay :: "nat option"
  jitterStrategy :: "JitterType option"

text \<open>\<open>CatchProps\<close> of \<open>../types\<close> (field names suffixed, \<open>errors\<close> being taken).\<close>

record CatchProps =
  errors_c :: "string list option"
  resultPath_c :: "string option"
  outputs_c :: "json option"
  assign_c :: "json option"

text \<open>\<open>interface CatchTransition\<close>.\<close>

record CatchTransition =
  next_c :: sid
  props :: CatchProps

text \<open>\<open>interface ChoiceTransition extends ChoiceTransitionOptions\<close>; the condition is opaque.\<close>

record ChoiceTransition =
  condition :: json
  next_ch :: sid
  comment_ch :: "string option"
  outputs_ch :: "json option"
  assign_ch :: "json option"

text \<open>
  The fields of \<open>class State\<close>. \<open>node_id\<close> is \<open>this.node.id\<close> and \<open>node_path\<close> is
  \<open>this.node.path\<close>; \<open>x_next\<close> is the field \<open>_next\<close>.
\<close>

record State =
  node_id :: string
  node_path :: string
  stateName :: "string option"
  comment :: "string option"
  inputPath :: "string option"
  outputPath :: "string option"
  queryLanguage :: "QueryLanguage option"
  branches :: "gid list"
  iteration :: "gid option"
  processor :: "gid option"
  defaultChoice :: "sid option"
  x_next :: "sid option"
  retries :: "RetryProps list"
  catches :: "CatchTransition list"
  choices :: "ChoiceTransition list"
  prefixes :: "string list"
  containingGraph :: "gid option"
  incomingStates :: "sid list"

text \<open>\<open>interface FindStateOptions\<close>.\<close>

record FindStateOptions =
  includeErrorHandlers :: "bool option"

section \<open>Free functions of the module\<close>

text \<open>
  Modelled from the spec: \<open>Errors.ALL\<close>, the wildcard "match all" matcher, is declared in
  \<open>../types\<close>, which is not among the sources. No proof below depends on its spelling.
\<close>

definition Errors_ALL :: string where
  "Errors_ALL = ''States.ALL''"

text \<open>\<open>a?.includes(Errors.ALL)\<close> on an optional array: \<open>undefined\<close> is falsy.\<close>

definition includesALL :: "string list option \<Rightarrow> bool" where
  "includesALL a = (case a of None \<Rightarrow> False | Some xs \<Rightarrow> Errors_ALL \<in> set xs)"

definition compareErrors :: "string list option \<Rightarrow> string list option \<Rightarrow> int" where
  "compareErrors a b =
     (if includesALL a then 1
      else if includesALL b then - 1
      else 0)"

definition validateErrors :: "string list option \<Rightarrow> error option" where
  "validateErrors errs =
     (case errs of
        None \<Rightarrow> None
      | Some xs \<Rightarrow> if Errors_ALL \<in> set xs \<and> length xs > 1 then Some AllMustAppearAlone else None)"

text \<open>
  \<open>renderJsonPath\<close>. \<open>Token.isUnresolved\<close> belongs to the core library and is a parameter.
  \<open>jsonPath.startsWith('$')\<close> is false on the empty string.
\<close>

definition startsWithDollar :: "string \<Rightarrow> bool" where
  "startsWithDollar s = (case s of [] \<Rightarrow> False | c # _ \<Rightarrow> c = CHR ''$'')"

definition renderJsonPath :: "(string \<Rightarrow> bool) \<Rightarrow> string option \<Rightarrow> error + string option" where
  "renderJsonPath isUnresolved jsonPath =
     (case jsonPath of
        None \<Rightarrow> Inr None
      | Some p \<Rightarrow>
          if \<not> isUnresolved p \<and> \<not> startsWithDollar p then Inl (JsonPathNoDollar p)
          else Inr (Some p))"

definition getActualQueryLanguage :: "QueryLanguage option \<Rightarrow> QueryLanguage option \<Rightarrow> QueryLanguage" where
  "getActualQueryLanguage topLevelQueryLanguage stateLevelQueryLanguage =
     (case stateLevelQueryLanguage of
        Some q \<Rightarrow> q
      | None \<Rightarrow> (case topLevelQueryLanguage of Some q \<Rightarrow> q | None \<Rightarrow> JSON_PATH))"

subsection \<open>\<open>Array.prototype.sort\<close>, \<open>Array.prototype.map\<close> and \<open>renderList\<close>\<close>

text \<open>
  \<open>xs.sort(sortFn)\<close> is a stable comparison sort driven by the sign of \<open>sortFn\<close>. It is
  modelled as insertion sort: each element in turn is placed in front of the first element
  of the already sorted prefix that \<open>sortFn\<close> puts after it, and behind it when there is
  none. The language fixes the result only for a consistent comparator; for another one,
  such as \<open>compareErrors\<close> on a rule with \<open>Errors.ALL\<close>, the order is the engine's, and this
  is the insertion step engines run on short arrays.
\<close>

fun insert_by :: "('a \<Rightarrow> 'a \<Rightarrow> int) \<Rightarrow> 'a \<Rightarrow> 'a list \<Rightarrow> 'a list" where
  "insert_by cmp x [] = [x]"
| "insert_by cmp x (y # ys) = (if cmp x y < 0 then x # y # ys else y # insert_by cmp x ys)"

definition sort_by :: "('a \<Rightarrow> 'a \<Rightarrow> int) \<Rightarrow> 'a list \<Rightarrow> 'a list" where
  "sort_by cmp xs = foldl (\<lambda>acc x. insert_by cmp x acc) [] xs"

text \<open>\<open>list.map(mapFn)\<close> where \<open>mapFn\<close> may throw: the first exception ends the map.\<close>

fun map_throwing :: "('a \<Rightarrow> error + 'b) \<Rightarrow> 'a list \<Rightarrow> error + 'b list" where
  "map_throwing f [] = Inr []"
| "map_throwing f (x # xs) =
     (case f x of
        Inl e \<Rightarrow> Inl e
      | Inr y \<Rightarrow> (case map_throwing f xs of Inl e \<Rightarrow> Inl e | Inr ys \<Rightarrow> Inr (y # ys)))"

text \<open>
  \<open>renderList\<close>. The result \<open>undefined\<close> is \<open>None\<close>. \<open>xs.sort\<close> sorts the caller's array in
  place, so the array as it is left behind is returned as second component.
\<close>

definition renderList ::
  "'a list \<Rightarrow> ('a \<Rightarrow> error + 'b) \<Rightarrow> ('a \<Rightarrow> 'a \<Rightarrow> int) option \<Rightarrow> (error + 'b list option) \<times> 'a list" where
  "renderList xs mapFn sortFn =
     (if length xs = 0 then (Inr None, xs)
      else
        let list = (case sortFn of None \<Rightarrow> xs | Some cmp \<Rightarrow> sort_by cmp xs)
        in (case map_throwing mapFn list of Inl e \<Rightarrow> Inl e | Inr ys \<Rightarrow> Inr (Some ys), list))"

section \<open>Methods of \<open>State\<close> that touch only the receiver\<close>

text \<open>
  \<open>get stateId\<close>: \<open>this.prefixes.concat(this.stateName ? this.stateName : this.id).join('')\<close>.
  The test is JavaScript truthiness, so an empty \<open>stateName\<close> falls through to the id.
\<close>

definition stateId :: "State \<Rightarrow> string" where
  "stateId st =
     concat (prefixes st @
       [case stateName st of
          None \<Rightarrow> node_id st
        | Some n \<Rightarrow> if n \<noteq> [] then n else node_id st])"

text \<open>\<open>addPrefix\<close>: \<open>this.prefixes.splice(0, 0, x)\<close> inserts at index 0.\<close>

definition addPrefix :: "string \<Rightarrow> State \<Rightarrow> State" where
  "addPrefix x st = (if x \<noteq> [] then st\<lparr>prefixes := x # prefixes st\<rparr> else st)"

text \<open>\<open>outgoingTransitions\<close>; \<open>options.includeErrorHandlers\<close> may be \<open>undefined\<close>, which is falsy.\<close>

definition outgoingTransitions :: "FindStateOptions \<Rightarrow> State \<Rightarrow> sid list" where
  "outgoingTransitions options st =
     (case x_next st of None \<Rightarrow> [] | Some n \<Rightarrow> [n]) @
     (case defaultChoice st of None \<Rightarrow> [] | Some d \<Rightarrow> [d]) @
     map next_ch (choices st) @
     (if includeErrorHandlers options = Some True then map next_c (catches st) else [])"

text \<open>
  \<open>renderQueryLanguage\<close>: the result is the value of the one field \<open>QueryLanguage\<close> of the
  returned object, \<open>None\<close> when the field is \<open>undefined\<close>.
\<close>

definition renderQueryLanguage :: "QueryLanguage option \<Rightarrow> State \<Rightarrow> error + QueryLanguage option" where
  "renderQueryLanguage topLevelQueryLanguage st =
     (let top = (case topLevelQueryLanguage of None \<Rightarrow> JSON_PATH | Some q \<Rightarrow> q)
      in if top = JSONATA \<and> queryLanguage st = Some JSON_PATH
         then Inl (QueryLanguageConflict (node_path st))
         else Inr (if top = JSON_PATH \<and> queryLanguage st = Some JSONATA then Some JSONATA else None))"

text \<open>\<open>_addRetry\<close>: on a validation error nothing has been pushed.\<close>

definition addRetry :: "RetryProps \<Rightarrow> State \<Rightarrow> error + State" where
  "addRetry rprops st =
     (case validateErrors (errors rprops) of
        Some e \<Rightarrow> Inl e
      | None \<Rightarrow>
          Inr (st\<lparr>retries := retries st @
                 [rprops\<lparr>errors := Some (case errors rprops of None \<Rightarrow> [Errors_ALL] | Some xs \<Rightarrow> xs)\<rparr>]\<rparr>))"

text \<open>The default argument \<open>props: RetryProps = {}\<close>.\<close>

definition emptyRetryProps :: RetryProps where
  "emptyRetryProps =
     \<lparr>errors = None, interval = None, maxAttempts = None, backoffRate = None,
      maxDelay = None, jitterStrategy = None\<rparr>"

text \<open>The default argument \<open>props: CatchProps = {}\<close>.\<close>

definition emptyCatchProps :: CatchProps where
  "emptyCatchProps = \<lparr>errors_c = None, resultPath_c = None, outputs_c = None, assign_c = None\<rparr>"

section \<open>Rendering retries and catches\<close>

record RetryJson =
  ErrorEquals :: "string list option"
  IntervalSeconds :: "nat option"
  MaxAttempts :: "nat option"
  BackoffRate :: "rat option"
  MaxDelaySeconds :: "nat option"
  JitterStrategy :: "JitterType option"

record CatchJson =
  Output_c :: "json option"
  Assign_c :: "json option"
  ErrorEquals_c :: "string list option"
  ResultPath_c :: "string option"
  Next_c :: string

record RetryCatchJson =
  Retry :: "RetryJson list option"
  Catch :: "CatchJson list option"

definition renderRetry :: "RetryProps \<Rightarrow> RetryJson" where
  "renderRetry retry =
     \<lparr>ErrorEquals = errors retry,
      IntervalSeconds = interval retry,
      MaxAttempts = maxAttempts retry,
      BackoffRate = backoffRate retry,
      MaxDelaySeconds = maxDelay retry,
      JitterStrategy = jitterStrategy retry\<rparr>"

text \<open>Reading \<open>c.next.stateId\<close> through the heap.\<close>

definition stateIdOf :: "State list \<Rightarrow> sid \<Rightarrow> error + string" where
  "stateIdOf h i = (if i < length h then Inr (stateId (h ! i)) else Inl (NoSuchState i))"

text \<open>
  \<open>renderCatch\<close>. \<open>FieldUtils.renderObject\<close> belongs to \<open>../fields\<close> and is a parameter. The
  object literal evaluates \<open>ResultPath\<close> before \<open>Next\<close>.
\<close>

definition renderCatch ::
  "(string \<Rightarrow> bool) \<Rightarrow> (json option \<Rightarrow> json option) \<Rightarrow> State list \<Rightarrow>
   CatchTransition \<Rightarrow> QueryLanguage \<Rightarrow> error + CatchJson" where
  "renderCatch isUnresolved renderObject h c ql =
     (case renderJsonPath isUnresolved (resultPath_c (props c)) of
        Inl e \<Rightarrow> Inl e
      | Inr rp \<Rightarrow>
          (case stateIdOf h (next_c c) of
             Inl e \<Rightarrow> Inl e
           | Inr nxt \<Rightarrow>
               Inr \<lparr>Output_c = (if ql = JSONATA then outputs_c (props c) else None),
                    Assign_c = (if ql = JSONATA then assign_c (props c)
                                else renderObject (assign_c (props c))),
                    ErrorEquals_c = errors_c (props c),
                    ResultPath_c = rp,
                    Next_c = nxt\<rparr>))"

text \<open>
  \<open>renderRetryCatch\<close>, on the receiver \<open>st\<close> in heap \<open>h\<close>. Both lists are sorted in place
  before they are mapped, so the receiver is returned as the call leaves it; the \<open>Retry\<close>
  field is evaluated before the \<open>Catch\<close> field.
\<close>

definition renderRetryCatch ::
  "(string \<Rightarrow> bool) \<Rightarrow> (json option \<Rightarrow> json option) \<Rightarrow> State list \<Rightarrow>
   QueryLanguage option \<Rightarrow> State \<Rightarrow> (error + RetryCatchJson) \<times> State" where
  "renderRetryCatch isUnresolved renderObject h topLevelQueryLanguage st =
     (let ql = getActualQueryLanguage topLevelQueryLanguage (queryLanguage st);
          (r, retries') = renderList (retries st) (\<lambda>x. Inr (renderRetry x))
                            (Some (\<lambda>a b. compareErrors (errors a) (errors b)));
          st1 = st\<lparr>retries := retries'\<rparr>
      in case r of
           Inl e \<Rightarrow> (Inl e, st1)
         | Inr retryField \<Rightarrow>
             (let (c, catches') = renderList (catches st1)
                                    (\<lambda>x. renderCatch isUnresolved renderObject h x ql)
                                    (Some (\<lambda>a b. compareErrors (errors_c (props a)) (errors_c (props b))));
                  st2 = st1\<lparr>catches := catches'\<rparr>
              in case c of
                   Inl e \<Rightarrow> (Inl e, st2)
                 | Inr catchField \<Rightarrow> (Inr \<lparr>Retry = retryField, Catch = catchField\<rparr>, st2)))"

section \<open>The store: states and graphs\<close>

text \<open>
  Modelled from the spec: class \<open>StateGraph\<close> lives in \<open>../state-graph\<close>, which is not
  among the sources. The spec describes it as holding "the set of states transitively bound
  to it and a reference to at most one super-graph"; \<open>registerState\<close> is the default hook
  ("register self into graph's member set") and \<open>registerSuperGraph\<close> records "the
  sub-graph's super-graph link".
\<close>

record StateGraph =
  allStates :: "sid set"
  superGraph :: "gid option"

record Store =
  states :: "State list"
  graphs :: "gid \<Rightarrow> StateGraph"

definition registerState :: "gid \<Rightarrow> sid \<Rightarrow> Store \<Rightarrow> Store" where
  "registerState g s \<sigma> =
     \<sigma>\<lparr>graphs := (graphs \<sigma>)(g := (graphs \<sigma> g)\<lparr>allStates := insert s (allStates (graphs \<sigma> g))\<rparr>)\<rparr>"

definition registerSuperGraph :: "gid \<Rightarrow> gid \<Rightarrow> Store \<Rightarrow> Store" where
  "registerSuperGraph sub super \<sigma> =
     \<sigma>\<lparr>graphs := (graphs \<sigma>)(sub := (graphs \<sigma> sub)\<lparr>superGraph := Some super\<rparr>)\<rparr>"

text \<open>\<open>whenBoundToGraph\<close>, the overridable hook, in its default implementation.\<close>

definition whenBoundToGraph :: "sid \<Rightarrow> gid \<Rightarrow> Store \<Rightarrow> Store" where
  "whenBoundToGraph s graph \<sigma> = registerState graph s \<sigma>"

text \<open>Assigning a field of the object at index \<open>s\<close>.\<close>

definition modState :: "sid \<Rightarrow> (State \<Rightarrow> State) \<Rightarrow> Store \<Rightarrow> Store" where
  "modState s f \<sigma> = \<sigma>\<lparr>states := (states \<sigma>)[s := f (states \<sigma> ! s)]\<rparr>"

text \<open>\<open>this.containingGraph = graph\<close>.\<close>

definition setContainingGraph :: "sid \<Rightarrow> gid \<Rightarrow> Store \<Rightarrow> Store" where
  "setContainingGraph s graph \<sigma> =
     \<sigma>\<lparr>states := (states \<sigma>)[s := (states \<sigma> ! s)\<lparr>containingGraph := Some graph\<rparr>]\<rparr>"

text \<open>The last three loops of \<open>bindToGraph\<close>: branches, iteration, processor.\<close>

definition registerSubGraphs :: "sid \<Rightarrow> gid \<Rightarrow> Store \<Rightarrow> Store" where
  "registerSubGraphs s graph \<sigma> =
     (let st = states \<sigma> ! s;
          \<sigma>1 = foldl (\<lambda>acc branch. registerSuperGraph branch graph acc) \<sigma> (branches st);
          \<sigma>2 = (case iteration st of None \<Rightarrow> \<sigma>1 | Some it \<Rightarrow> registerSuperGraph it graph \<sigma>1)
      in (case processor st of None \<Rightarrow> \<sigma>2 | Some p \<Rightarrow> registerSuperGraph p graph \<sigma>2))"

text \<open>The options literal \<open>{ includeErrorHandlers: true }\<close>.\<close>

definition allHandlers :: FindStateOptions where
  "allHandlers = \<lparr>includeErrorHandlers = Some True\<rparr>"

text \<open>
  \<open>bindToGraph\<close>. An exception leaves behind whatever was mutated before it, so the result
  is the error (if any) together with the store. \<open>bindEach\<close> is the body of the two
  \<open>for (const x of ...) x.bindToGraph(graph)\<close> loops.
\<close>

function bindToGraph :: "sid \<Rightarrow> gid \<Rightarrow> Store \<Rightarrow> error option \<times> Store"
  and bindEach :: "sid list \<Rightarrow> gid \<Rightarrow> Store \<Rightarrow> error option \<times> Store" where
  "bindToGraph s graph \<sigma> =
     (if \<not> s < length (states \<sigma>) then (Some (NoSuchState s), \<sigma>)
      else
        case containingGraph (states \<sigma> ! s) of
          Some g \<Rightarrow>
            if g = graph then (None, \<sigma>)
            else (Some (StateInOtherGraph (stateId (states \<sigma> ! s)) graph g), \<sigma>)
        | None \<Rightarrow>
            (case bindEach (incomingStates (states \<sigma> ! s)) graph
                    (whenBoundToGraph s graph (setContainingGraph s graph \<sigma>)) of
               (Some e, \<sigma>3) \<Rightarrow> (Some e, \<sigma>3)
             | (None, \<sigma>3) \<Rightarrow>
                 (case bindEach (outgoingTransitions allHandlers (states \<sigma>3 ! s)) graph \<sigma>3 of
                    (Some e, \<sigma>4) \<Rightarrow> (Some e, \<sigma>4)
                  | (None, \<sigma>4) \<Rightarrow> (None, registerSubGraphs s graph \<sigma>4))))"
| "bindEach [] graph \<sigma> = (None, \<sigma>)"
| "bindEach (t # ts) graph \<sigma> =
     (case bindToGraph t graph \<sigma> of
        (Some e, \<sigma>') \<Rightarrow> (Some e, \<sigma>')
      | (None, \<sigma>') \<Rightarrow> bindEach ts graph \<sigma>')"
  by pat_completeness auto

text \<open>The number of states not yet bound: what every binding step decreases.\<close>

definition unbound :: "Store \<Rightarrow> nat" where
  "unbound \<sigma> = length (filter (\<lambda>st. containingGraph st = None) (states \<sigma>))"

subsection \<open>Declaring transitions and sub-graphs\<close>

text \<open>\<open>addIncoming\<close>, called on \<open>target\<close> with argument \<open>source\<close>.\<close>

definition addIncoming :: "sid \<Rightarrow> sid \<Rightarrow> Store \<Rightarrow> Store" where
  "addIncoming target source \<sigma> =
     modState target (\<lambda>st. st\<lparr>incomingStates := incomingStates st @ [source]\<rparr>) \<sigma>"

text \<open>The shared tail \<open>if (this.containingGraph) { x.bindToGraph(this.containingGraph); }\<close>.\<close>

definition bindIfBound :: "sid \<Rightarrow> sid \<Rightarrow> Store \<Rightarrow> error option \<times> Store" where
  "bindIfBound s target \<sigma> =
     (case containingGraph (states \<sigma> ! s) of
        None \<Rightarrow> (None, \<sigma>)
      | Some g \<Rightarrow> bindToGraph target g \<sigma>)"

definition makeNext :: "sid \<Rightarrow> sid \<Rightarrow> Store \<Rightarrow> error option \<times> Store" where
  "makeNext s nxt \<sigma> =
     (if \<not> s < length (states \<sigma>) then (Some (NoSuchState s), \<sigma>)
      else if \<not> nxt < length (states \<sigma>) then (Some (NoSuchState nxt), \<sigma>)
      else if x_next (states \<sigma> ! s) \<noteq> None then (Some (AlreadyHasNext (node_id (states \<sigma> ! s))), \<sigma>)
      else bindIfBound s nxt (addIncoming nxt s (modState s (\<lambda>st. st\<lparr>x_next := Some nxt\<rparr>) \<sigma>)))"

text \<open>
  \<open>addChoice\<close>: \<open>next.startState\<close> is \<open>next\<close> itself, the constructor setting
  \<open>this.startState = this\<close>. The options are the fields of the transition other than
  \<open>condition\<close> and \<open>next\<close>.
\<close>

definition addChoice :: "sid \<Rightarrow> ChoiceTransition \<Rightarrow> Store \<Rightarrow> error option \<times> Store" where
  "addChoice s c \<sigma> =
     (if \<not> s < length (states \<sigma>) then (Some (NoSuchState s), \<sigma>)
      else if \<not> next_ch c < length (states \<sigma>) then (Some (NoSuchState (next_ch c)), \<sigma>)
      else bindIfBound s (next_ch c)
             (addIncoming (next_ch c) s (modState s (\<lambda>st. st\<lparr>choices := choices st @ [c]\<rparr>) \<sigma>)))"

definition makeDefault :: "sid \<Rightarrow> sid \<Rightarrow> Store \<Rightarrow> error option \<times> Store" where
  "makeDefault s def \<sigma> =
     (if \<not> s < length (states \<sigma>) then (Some (NoSuchState s), \<sigma>)
      else if \<not> def < length (states \<sigma>) then (Some (NoSuchState def), \<sigma>)
      else if defaultChoice (states \<sigma> ! s) \<noteq> None
        then (Some (AlreadyHasDefault (node_id (states \<sigma> ! s))), \<sigma>)
      else (None, modState s (\<lambda>st. st\<lparr>defaultChoice := Some def\<rparr>) \<sigma>))"

text \<open>
  \<open>addBranch\<close>, \<open>addIterator\<close> and \<open>addItemProcessor\<close> (the processor configuration is only
  rendered and is left out).
\<close>

definition registerIfBound :: "sid \<Rightarrow> gid \<Rightarrow> Store \<Rightarrow> Store" where
  "registerIfBound s sub \<sigma> =
     (case containingGraph (states \<sigma> ! s) of
        None \<Rightarrow> \<sigma>
      | Some g \<Rightarrow> registerSuperGraph sub g \<sigma>)"

definition addBranch :: "sid \<Rightarrow> gid \<Rightarrow> Store \<Rightarrow> error option \<times> Store" where
  "addBranch s branch \<sigma> =
     (if \<not> s < length (states \<sigma>) then (Some (NoSuchState s), \<sigma>)
      else (None, registerIfBound s branch (modState s (\<lambda>st. st\<lparr>branches := branches st @ [branch]\<rparr>) \<sigma>)))"

definition addIterator :: "sid \<Rightarrow> gid \<Rightarrow> Store \<Rightarrow> error option \<times> Store" where
  "addIterator s iter \<sigma> =
     (if \<not> s < length (states \<sigma>) then (Some (NoSuchState s), \<sigma>)
      else (None, registerIfBound s iter (modState s (\<lambda>st. st\<lparr>iteration := Some iter\<rparr>) \<sigma>)))"

definition addItemProcessor :: "sid \<Rightarrow> gid \<Rightarrow> Store \<Rightarrow> error option \<times> Store" where
  "addItemProcessor s proc \<sigma> =
     (if \<not> s < length (states \<sigma>) then (Some (NoSuchState s), \<sigma>)
      else (None, registerIfBound s proc (modState s (\<lambda>st. st\<lparr>processor := Some proc\<rparr>) \<sigma>)))"

text \<open>\<open>_addCatch\<close>.\<close>

definition addCatch :: "sid \<Rightarrow> sid \<Rightarrow> CatchProps \<Rightarrow> Store \<Rightarrow> error option \<times> Store" where
  "addCatch s handler cprops \<sigma> =
     (if \<not> s < length (states \<sigma>) then (Some (NoSuchState s), \<sigma>)
      else if \<not> handler < length (states \<sigma>) then (Some (NoSuchState handler), \<sigma>)
      else
        case validateErrors (errors_c cprops) of
          Some e \<Rightarrow> (Some e, \<sigma>)
        | None \<Rightarrow>
            bindIfBound s handler
              (addIncoming handler s
                (modState s
                  (\<lambda>st. st\<lparr>catches := catches st @
                     [\<lparr>next_c = handler,
                       props = \<lparr>errors_c = Some (case errors_c cprops of None \<Rightarrow> [Errors_ALL] | Some xs \<Rightarrow> xs),
                                resultPath_c = resultPath_c cprops,
                                outputs_c = outputs_c cprops,
                                assign_c = assign_c cprops\<rparr>\<rparr>]\<rparr>)
                  \<sigma>)))"

text \<open>\<open>_addRetry\<close> on the object at index \<open>s\<close>.\<close>

definition addRetryAt :: "sid \<Rightarrow> RetryProps \<Rightarrow> Store \<Rightarrow> error option \<times> Store" where
  "addRetryAt s rprops \<sigma> =
     (if \<not> s < length (states \<sigma>) then (Some (NoSuchState s), \<sigma>)
      else
        case addRetry rprops (states \<sigma> ! s) of
          Inl e \<Rightarrow> (Some e, \<sigma>)
        | Inr st' \<Rightarrow> (None, modState s (\<lambda>_. st') \<sigma>))"

text \<open>The constructor: the fields taken from \<open>props\<close>, every list empty, no graph.\<close>

record StateProps =
  stateName_p :: "string option"
  comment_p :: "string option"
  inputPath_p :: "string option"
  outputPath_p :: "string option"
  queryLanguage_p :: "QueryLanguage option"

definition newState :: "string \<Rightarrow> string \<Rightarrow> StateProps \<Rightarrow> State" where
  "newState ident path sprops =
     \<lparr>node_id = ident, node_path = path,
      stateName = stateName_p sprops, comment = comment_p sprops,
      inputPath = inputPath_p sprops, outputPath = outputPath_p sprops,
      queryLanguage = queryLanguage_p sprops,
      branches = [], iteration = None, processor = None,
      defaultChoice = None, x_next = None,
      retries = [], catches = [], choices = [], prefixes = [],
      containingGraph = None, incomingStates = []\<rparr>"

definition noProps :: StateProps where
  "noProps = \<lparr>stateName_p = None, comment_p = None, inputPath_p = None, outputPath_p = None,
              queryLanguage_p = None\<rparr>"

text \<open>A graph as \<open>new StateGraph(...)\<close> leaves it, as far as the spec describes it.\<close>

definition emptyGraph :: StateGraph where
  "emptyGraph = \<lparr>allStates = {}, superGraph = None\<rparr>"

section \<open>Reachability\<close>

text \<open>
  A JavaScript \<open>Set\<close> keeps insertion order and ignores a second \<open>add\<close> of the same element;
  \<open>Array.from\<close> lists it in that order. It is a duplicate-free list.
\<close>

definition set_add :: "'a \<Rightarrow> 'a list \<Rightarrow> 'a list" where
  "set_add x xs = (if x \<in> set xs then xs else xs @ [x])"

text \<open>
  The \<open>while (queue.length > 0)\<close> loop of \<open>findReachableStates\<close>, on the variables
  \<open>visited\<close>, \<open>ret\<close> and \<open>queue\<close>.
\<close>

function reachLoop ::
  "State list \<Rightarrow> FindStateOptions \<Rightarrow> sid list \<Rightarrow> sid list \<Rightarrow> sid list \<Rightarrow> error + sid list" where
  "reachLoop h options visited ret [] = Inr ret"
| "reachLoop h options visited ret (state # queue) =
     (if state \<in> set visited then reachLoop h options visited ret queue
      else if \<not> state < length h then Inl (NoSuchState state)
      else reachLoop h options (set_add state visited) (set_add state ret)
             (queue @ outgoingTransitions options (h ! state)))"
  by pat_completeness auto
termination
proof (relation "inv_image (less_than <*lex*> less_than)
         (\<lambda>(h, options, visited, ret, queue). (card ({..<length h} - set visited), length queue))",
       goal_cases)
  case 1
  show ?case by (intro wf_inv_image wf_lex_prod wf_less_than)
next
  case (2 h options visited ret state queue)
  then show ?case by simp
next
  case (3 h options visited ret state queue)
  then have "card ({..<length h} - insert state (set visited)) < card ({..<length h} - set visited)"
    by (intro psubset_card_mono) auto
  with 3 show ?case by (simp add: set_add_def)
qed

definition findReachableStates :: "State list \<Rightarrow> sid \<Rightarrow> FindStateOptions \<Rightarrow> error + sid list" where
  "findReachableStates h start options = reachLoop h options [] [] [start]"

text \<open>The loop of \<open>findReachableEndStates\<close>.\<close>

function endLoop ::
  "State list \<Rightarrow> FindStateOptions \<Rightarrow> sid list \<Rightarrow> sid list \<Rightarrow> sid list \<Rightarrow> error + sid list" where
  "endLoop h options visited ret [] = Inr ret"
| "endLoop h options visited ret (state # queue) =
     (if state \<in> set visited then endLoop h options visited ret queue
      else if \<not> state < length h then Inl (NoSuchState state)
      else if length (outgoingTransitions options (h ! state)) > 0
        then endLoop h options (set_add state visited) ret
               (queue @ outgoingTransitions options (h ! state))
      else endLoop h options (set_add state visited) (set_add state ret) queue)"
  by pat_completeness auto
termination
proof (relation "inv_image (less_than <*lex*> less_than)
         (\<lambda>(h, options, visited, ret, queue). (card ({..<length h} - set visited), length queue))",
       goal_cases)
  case 1
  show ?case by (intro wf_inv_image wf_lex_prod wf_less_than)
next
  case (2 h options visited ret state queue)
  then show ?case by simp
next
  case (3 h options visited ret state queue)
  then have "card ({..<length h} - insert state (set visited)) < card ({..<length h} - set visited)"
    by (intro psubset_card_mono) auto
  with 3 show ?case by (simp add: set_add_def)
next
  case (4 h options visited ret state queue)
  then have "card ({..<length h} - insert state (set visited)) < card ({..<length h} - set visited)"
    by (intro psubset_card_mono) auto
  with 4 show ?case by (simp add: set_add_def)
qed

definition findReachableEndStates :: "State list \<Rightarrow> sid \<Rightarrow> FindStateOptions \<Rightarrow> error + sid list" where
  "findReachableEndStates h start options = endLoop h options [] [] [start]"

text \<open>The default argument \<open>options: FindStateOptions = {}\<close>.\<close>

definition defaultOptions :: FindStateOptions where
  "defaultOptions = \<lparr>includeErrorHandlers = None\<rparr>"

text \<open>The transition relation the traversals walk, and heaps whose transitions stay inside.\<close>

definition edges :: "State list \<Rightarrow> FindStateOptions \<Rightarrow> (sid \<times> sid) set" where
  "edges h options = {(i, t). i < length h \<and> t \<in> set (outgoingTransitions options (h ! i))}"

definition closedHeap :: "State list \<Rightarrow> FindStateOptions \<Rightarrow> bool" where
  "closedHeap h options =
     (\<forall>i < length h. \<forall>t \<in> set (outgoingTransitions options (h ! i)). t < length h)"

section \<open>Notions used in the statements\<close>

text \<open>Every state with its graph reference erased: what binding must leave alone.\<close>

definition skeleton :: "Store \<Rightarrow> State list" where
  "skeleton \<sigma> = map (\<lambda>st. st\<lparr>containingGraph := None\<rparr>) (states \<sigma>)"

text \<open>The graph a state is bound to, if any.\<close>

definition graphOf :: "Store \<Rightarrow> sid \<Rightarrow> gid option" where
  "graphOf \<sigma> i = (if i < length (states \<sigma>) then containingGraph (states \<sigma> ! i) else None)"

text \<open>The graph references of all states, in heap order.\<close>

definition boundGraphs :: "Store \<Rightarrow> gid option list" where
  "boundGraphs \<sigma> = map containingGraph (states \<sigma>)"

text \<open>Stores in which every bound state is bound to \<open>graph\<close>.\<close>

definition onlyGraph :: "gid \<Rightarrow> Store \<Rightarrow> bool" where
  "onlyGraph graph \<sigma> = (\<forall>i < length (states \<sigma>). containingGraph (states \<sigma> ! i) \<in> {None, Some graph})"

text \<open>Stores in which every transition and every incoming reference denotes a state.\<close>

definition liveRefs :: "Store \<Rightarrow> bool" where
  "liveRefs \<sigma> =
     (\<forall>i < length (states \<sigma>).
        \<forall>t \<in> set (incomingStates (states \<sigma> ! i)) \<union> set (outgoingTransitions allHandlers (states \<sigma> ! i)).
          t < length (states \<sigma>))"

text \<open>
  The order the spec asks of a rendered retry or catch list: the rules without
  \<open>Errors.ALL\<close> in declaration order, then the rules with it.
\<close>

definition wildLast :: "('a \<Rightarrow> string list option) \<Rightarrow> 'a list \<Rightarrow> 'a list" where
  "wildLast f xs = filter (\<lambda>x. \<not> includesALL (f x)) xs @ filter (\<lambda>x. includesALL (f x)) xs"

text \<open>Replacing the sub-graph references of every state.\<close>

definition withSubGraphs ::
  "(State \<Rightarrow> gid list) \<Rightarrow> (State \<Rightarrow> gid option) \<Rightarrow> (State \<Rightarrow> gid option) \<Rightarrow> State list \<Rightarrow> State list" where
  "withSubGraphs bs it pr h = map (\<lambda>st. st\<lparr>branches := bs st, iteration := it st, processor := pr st\<rparr>) h"

subsection \<open>Example stores\<close>

text \<open>Two fresh states, nothing declared, nothing bound.\<close>

definition twoFresh :: Store where
  "twoFresh = \<lparr>states = [newState ''a'' ''Stack/a'' noProps, newState ''b'' ''Stack/b'' noProps],
               graphs = (\<lambda>_. emptyGraph)\<rparr>"

text \<open>One state already bound to graph 1.\<close>

definition boundStore :: Store where
  "boundStore = \<lparr>states = [(newState ''A'' ''Stack/A'' noProps)\<lparr>containingGraph := Some 1\<rparr>],
                 graphs = (\<lambda>_. emptyGraph)\<rparr>"

text \<open>The two-state cycle \<open>a \<rightarrow> b \<rightarrow> a\<close> along default transitions.\<close>

definition cycleHeap :: "State list" where
  "cycleHeap = [(newState ''a'' ''Stack/a'' noProps)\<lparr>x_next := Some 1\<rparr>,
                (newState ''b'' ''Stack/b'' noProps)\<lparr>x_next := Some 0\<rparr>]"

text \<open>
  A task whose retry and catch lists both declare the \<open>Errors.ALL\<close> rule first, and the
  fragment it renders to.
\<close>

definition retryAll :: RetryProps where
  "retryAll = emptyRetryProps\<lparr>errors := Some [Errors_ALL], maxAttempts := Some 2\<rparr>"

definition retryTimeout :: RetryProps where
  "retryTimeout = emptyRetryProps\<lparr>errors := Some [''States.Timeout''], interval := Some 5\<rparr>"

definition catchAll :: CatchTransition where
  "catchAll = \<lparr>next_c = 1, props = emptyCatchProps\<lparr>errors_c := Some [Errors_ALL]\<rparr>\<rparr>"

definition catchFailed :: CatchTransition where
  "catchFailed = \<lparr>next_c = 1,
                  props = emptyCatchProps\<lparr>errors_c := Some [''States.TaskFailed''], resultPath_c := Some ''$.error''\<rparr>\<rparr>"

definition taskHeap :: "State list" where
  "taskHeap = [(newState ''Task'' ''Stack/Task'' noProps)
                 \<lparr>retries := [retryAll, retryTimeout], catches := [catchAll, catchFailed]\<rparr>,
               newState ''Handler'' ''Stack/Handler'' noProps]"

definition taskRendered :: RetryCatchJson where
  "taskRendered =
     \<lparr>Retry = Some [renderRetry retryTimeout, renderRetry retryAll],
      Catch = Some
        [\<lparr>Output_c = None, Assign_c = None, ErrorEquals_c = Some [''States.TaskFailed''],
          ResultPath_c = Some ''$.error'', Next_c = ''Handler''\<rparr>,
         \<lparr>Output_c = None, Assign_c = None, ErrorEquals_c = Some [Errors_ALL],
          ResultPath_c = None, Next_c = ''Handler''\<rparr>]\<rparr>"

section \<open>Termination of the binding protocol\<close>

lemma filter_update_less:
  "i < length xs \<Longrightarrow> P (xs ! i) \<Longrightarrow> \<not> P y \<Longrightarrow> length (filter P (xs[i := y])) < length (filter P xs)"
proof (induction xs arbitrary: i)
  case Nil
  then show ?case by simp
next
  case (Cons x xs)
  show ?case
  proof (cases i)
    case 0
    with Cons.prems show ?thesis by simp
  next
    case (Suc j)
    with Cons.prems have "length (filter P (xs[j := y])) < length (filter P xs)"
      by (intro Cons.IH) simp_all
    with Suc show ?thesis by simp
  qed
qed

lemma unbound_setContainingGraph:
  "s < length (states \<sigma>) \<Longrightarrow> containingGraph (states \<sigma> ! s) = None \<Longrightarrow>
   unbound (setContainingGraph s graph \<sigma>) < unbound \<sigma>"
  unfolding unbound_def setContainingGraph_def
  by (simp add: filter_update_less)

lemma states_registerState [simp]: "states (registerState g s \<sigma>) = states \<sigma>"
  by (simp add: registerState_def)

lemma states_whenBoundToGraph [simp]: "states (whenBoundToGraph s g \<sigma>) = states \<sigma>"
  by (simp add: whenBoundToGraph_def)

lemma states_registerSuperGraph [simp]: "states (registerSuperGraph sub super \<sigma>) = states \<sigma>"
  by (simp add: registerSuperGraph_def)

lemma states_foldl_registerSuperGraph [simp]:
  "states (foldl (\<lambda>acc branch. registerSuperGraph branch graph acc) \<sigma> bs) = states \<sigma>"
  by (induction bs arbitrary: \<sigma>) simp_all

lemma states_registerSubGraphs [simp]: "states (registerSubGraphs s graph \<sigma>) = states \<sigma>"
  by (simp add: registerSubGraphs_def Let_def split: option.splits)

lemma unbound_states_cong: "states \<sigma> = states \<sigma>' \<Longrightarrow> unbound \<sigma> = unbound \<sigma>'"
  by (simp add: unbound_def)

lemma unbound_first_step:
  "s < length (states \<sigma>) \<Longrightarrow> containingGraph (states \<sigma> ! s) = None \<Longrightarrow>
   unbound (whenBoundToGraph s graph (setContainingGraph s graph \<sigma>)) < unbound \<sigma>"
  using unbound_setContainingGraph[of s \<sigma> graph]
  by (simp add: unbound_states_cong[of "whenBoundToGraph s graph (setContainingGraph s graph \<sigma>)"
                  "setContainingGraph s graph \<sigma>"])

lemma bind_unbound_partial:
  "bindToGraph_bindEach_dom (Inl (s, graph, \<sigma>)) \<Longrightarrow> unbound (snd (bindToGraph s graph \<sigma>)) \<le> unbound \<sigma>"
  "bindToGraph_bindEach_dom (Inr (ts, graph, \<sigma>)) \<Longrightarrow> unbound (snd (bindEach ts graph \<sigma>)) \<le> unbound \<sigma>"
proof (induction rule: bindToGraph_bindEach.pinduct)
  case (1 s graph \<sigma>)
  show ?case
  proof (cases "s < length (states \<sigma>) \<and> containingGraph (states \<sigma> ! s) = None")
    case False
    then show ?thesis
      by (auto simp: bindToGraph.psimps[OF "1.hyps"] split: option.splits)
  next
    case True
    let ?\<sigma>2 = "whenBoundToGraph s graph (setContainingGraph s graph \<sigma>)"
    have lt: "unbound ?\<sigma>2 < unbound \<sigma>"
      using True by (simp add: unbound_first_step)
    obtain e3 \<sigma>3 where r3: "bindEach (incomingStates (states \<sigma> ! s)) graph ?\<sigma>2 = (e3, \<sigma>3)"
      by (cases "bindEach (incomingStates (states \<sigma> ! s)) graph ?\<sigma>2")
    have le3: "unbound \<sigma>3 \<le> unbound ?\<sigma>2"
      using "1.IH"(1) True r3 by simp
    show ?thesis
    proof (cases e3)
      case (Some e)
      with True r3 le3 lt show ?thesis
        by (simp add: bindToGraph.psimps[OF "1.hyps"])
    next
      case None
      obtain e4 \<sigma>4
        where r4: "bindEach (outgoingTransitions allHandlers (states \<sigma>3 ! s)) graph \<sigma>3 = (e4, \<sigma>4)"
        by (cases "bindEach (outgoingTransitions allHandlers (states \<sigma>3 ! s)) graph \<sigma>3")
      have le4: "unbound \<sigma>4 \<le> unbound \<sigma>3"
        using "1.IH"(2)[of e3 \<sigma>3] True r3 None r4 by simp
      have "unbound (registerSubGraphs s graph \<sigma>4) = unbound \<sigma>4"
        by (rule unbound_states_cong) simp
      with True r3 None r4 le3 le4 lt show ?thesis
        by (cases e4) (simp_all add: bindToGraph.psimps[OF "1.hyps"])
    qed
  qed
next
  case (2 graph \<sigma>)
  then show ?case by (simp add: bindEach.psimps)
next
  case (3 t ts graph \<sigma>)
  obtain e \<sigma>' where r: "bindToGraph t graph \<sigma> = (e, \<sigma>')"
    by (cases "bindToGraph t graph \<sigma>")
  have le: "unbound \<sigma>' \<le> unbound \<sigma>"
    using "3.IH"(1) r by simp
  show ?case
  proof (cases e)
    case (Some x)
    with r le show ?thesis by (simp add: bindEach.psimps(2)[OF "3.hyps"])
  next
    case None
    have "unbound (snd (bindEach ts graph \<sigma>')) \<le> unbound \<sigma>'"
      using "3.IH"(2)[of e \<sigma>'] r None by simp
    with r None le show ?thesis by (simp add: bindEach.psimps(2)[OF "3.hyps"])
  qed
qed

termination bindToGraph
proof (relation "inv_image (less_than <*lex*> less_than)
         (\<lambda>x. case x of Inl (s, g, \<sigma>) \<Rightarrow> (unbound \<sigma>, 0) | Inr (ts, g, \<sigma>) \<Rightarrow> (unbound \<sigma>, Suc (length ts)))",
       goal_cases)
  case 1
  show ?case by (intro wf_inv_image wf_lex_prod wf_less_than)
next
  case (2 s graph \<sigma>)
  then show ?case by (simp add: unbound_first_step)
next
  case (3 s graph \<sigma> x y)
  have "unbound (whenBoundToGraph s graph (setContainingGraph s graph \<sigma>)) < unbound \<sigma>"
    using 3 by (simp add: unbound_first_step)
  moreover have "unbound y \<le> unbound (whenBoundToGraph s graph (setContainingGraph s graph \<sigma>))"
    using bind_unbound_partial(2)[OF 3(5)] 3(3) by (metis snd_conv)
  ultimately show ?case by simp
next
  case (4 t ts graph \<sigma>)
  show ?case by simp
next
  case (5 t ts graph \<sigma> x y)
  have "unbound y \<le> unbound \<sigma>"
    using bind_unbound_partial(1)[OF 5(3)] 5(1) by (metis snd_conv)
  then show ?case by auto
qed

declare bindToGraph.simps [simp del]

section \<open>What binding changes and what it leaves alone\<close>

lemma skeleton_states_cong: "states \<sigma> = states \<sigma>' \<Longrightarrow> skeleton \<sigma> = skeleton \<sigma>'"
  by (simp add: skeleton_def)

lemma skeleton_setContainingGraph: "skeleton (setContainingGraph s graph \<sigma>) = skeleton \<sigma>"
  by (cases "s < length (states \<sigma>)")
     (simp_all add: skeleton_def setContainingGraph_def map_update list_update_same_conv
        list_update_beyond)

lemma skeleton_first_step:
  "skeleton (whenBoundToGraph s graph (setContainingGraph s graph \<sigma>)) = skeleton \<sigma>"
  using skeleton_states_cong[of "whenBoundToGraph s graph (setContainingGraph s graph \<sigma>)"
          "setContainingGraph s graph \<sigma>"]
  by (simp add: skeleton_setContainingGraph)

lemma bind_skeleton:
  "skeleton (snd (bindToGraph s graph \<sigma>)) = skeleton \<sigma>"
  "skeleton (snd (bindEach ts graph \<sigma>)) = skeleton \<sigma>"
proof (induction s graph \<sigma> and ts graph \<sigma> rule: bindToGraph_bindEach.induct)
  case (1 s graph \<sigma>)
  show ?case
  proof (cases "s < length (states \<sigma>) \<and> containingGraph (states \<sigma> ! s) = None")
    case False
    then show ?thesis
      by (auto simp: bindToGraph.simps[of s graph \<sigma>] split: option.splits)
  next
    case True
    let ?\<sigma>2 = "whenBoundToGraph s graph (setContainingGraph s graph \<sigma>)"
    obtain e3 \<sigma>3 where r3: "bindEach (incomingStates (states \<sigma> ! s)) graph ?\<sigma>2 = (e3, \<sigma>3)"
      by (cases "bindEach (incomingStates (states \<sigma> ! s)) graph ?\<sigma>2")
    have s3: "skeleton \<sigma>3 = skeleton \<sigma>"
      using "1.IH"(1) True r3 by (simp add: skeleton_first_step)
    show ?thesis
    proof (cases e3)
      case (Some e)
      with True r3 s3 show ?thesis
        by (simp add: bindToGraph.simps[of s graph \<sigma>])
    next
      case None
      obtain e4 \<sigma>4
        where r4: "bindEach (outgoingTransitions allHandlers (states \<sigma>3 ! s)) graph \<sigma>3 = (e4, \<sigma>4)"
        by (cases "bindEach (outgoingTransitions allHandlers (states \<sigma>3 ! s)) graph \<sigma>3")
      have s4: "skeleton \<sigma>4 = skeleton \<sigma>3"
        using "1.IH"(2)[of e3 \<sigma>3] True r3 None r4 by simp
      have "skeleton (registerSubGraphs s graph \<sigma>4) = skeleton \<sigma>4"
        by (rule skeleton_states_cong) simp
      with True r3 None r4 s3 s4 show ?thesis
        by (cases e4) (simp_all add: bindToGraph.simps[of s graph \<sigma>])
    qed
  qed
next
  case (2 graph \<sigma>)
  show ?case by simp
next
  case (3 t ts graph \<sigma>)
  obtain e \<sigma>' where r: "bindToGraph t graph \<sigma> = (e, \<sigma>')"
    by (cases "bindToGraph t graph \<sigma>")
  have s1: "skeleton \<sigma>' = skeleton \<sigma>"
    using "3.IH"(1) r by simp
  show ?case
  proof (cases e)
    case (Some x)
    with r s1 show ?thesis by simp
  next
    case None
    have "skeleton (snd (bindEach ts graph \<sigma>')) = skeleton \<sigma>'"
      using "3.IH"(2)[of e \<sigma>'] r None by simp
    with r None s1 show ?thesis by simp
  qed
qed

lemma skeleton_length: "skeleton \<sigma>' = skeleton \<sigma> \<Longrightarrow> length (states \<sigma>') = length (states \<sigma>)"
  unfolding skeleton_def by (metis length_map)

lemma skeleton_nth:
  assumes "skeleton \<sigma>' = skeleton \<sigma>" "i < length (states \<sigma>)"
  shows "(states \<sigma>' ! i)\<lparr>containingGraph := None\<rparr> = (states \<sigma> ! i)\<lparr>containingGraph := None\<rparr>"
proof -
  have i': "i < length (states \<sigma>')"
    using skeleton_length[OF assms(1)] assms(2) by (simp only:)
  have "skeleton \<sigma>' ! i = skeleton \<sigma> ! i"
    by (simp only: assms(1))
  then show ?thesis
    unfolding skeleton_def by (simp only: nth_map[OF i'] nth_map[OF assms(2)])
qed

lemma skeleton_catches:
  assumes "skeleton \<sigma>' = skeleton \<sigma>" "i < length (states \<sigma>)"
  shows "catches (states \<sigma>' ! i) = catches (states \<sigma> ! i)"
proof -
  have "catches ((states \<sigma>' ! i)\<lparr>containingGraph := None\<rparr>) = catches ((states \<sigma> ! i)\<lparr>containingGraph := None\<rparr>)"
    using skeleton_nth[OF assms] by simp
  then show ?thesis by simp
qed

lemma bindIfBound_catches:
  assumes "i < length (states \<sigma>)"
  shows "catches (states (snd (bindIfBound s t \<sigma>)) ! i) = catches (states \<sigma> ! i)"
proof (cases "containingGraph (states \<sigma> ! s)")
  case None
  then show ?thesis by (simp add: bindIfBound_def)
next
  case (Some g)
  have "skeleton (snd (bindToGraph t g \<sigma>)) = skeleton \<sigma>"
    by (rule bind_skeleton(1))
  from skeleton_catches[OF this assms] Some show ?thesis
    by (simp add: bindIfBound_def)
qed

lemma outgoingTransitions_containingGraph [simp]:
  "outgoingTransitions options (st\<lparr>containingGraph := g\<rparr>) = outgoingTransitions options st"
  by (simp add: outgoingTransitions_def)

lemma skeleton_fields:
  assumes "skeleton \<sigma>' = skeleton \<sigma>" "i < length (states \<sigma>)"
  shows "outgoingTransitions options (states \<sigma>' ! i) = outgoingTransitions options (states \<sigma> ! i)"
    and "incomingStates (states \<sigma>' ! i) = incomingStates (states \<sigma> ! i)"
proof -
  have "outgoingTransitions options ((states \<sigma>' ! i)\<lparr>containingGraph := None\<rparr>) =
        outgoingTransitions options ((states \<sigma> ! i)\<lparr>containingGraph := None\<rparr>)"
    by (simp only: skeleton_nth[OF assms])
  then show "outgoingTransitions options (states \<sigma>' ! i) = outgoingTransitions options (states \<sigma> ! i)"
    by simp
  have "incomingStates ((states \<sigma>' ! i)\<lparr>containingGraph := None\<rparr>) =
        incomingStates ((states \<sigma> ! i)\<lparr>containingGraph := None\<rparr>)"
    by (simp only: skeleton_nth[OF assms])
  then show "incomingStates (states \<sigma>' ! i) = incomingStates (states \<sigma> ! i)"
    by simp
qed

lemma graphOf_states_cong: "states \<sigma> = states \<sigma>' \<Longrightarrow> graphOf \<sigma> = graphOf \<sigma>'"
  by (auto simp: graphOf_def)

lemma graphOf_first_step:
  "graphOf (whenBoundToGraph s graph (setContainingGraph s graph \<sigma>)) i =
     (if i = s \<and> s < length (states \<sigma>) then Some graph else graphOf \<sigma> i)"
  by (auto simp: graphOf_def setContainingGraph_def)

lemma bind_keeps_bound:
  "graphOf \<sigma> i = Some g0 \<Longrightarrow> graphOf (snd (bindToGraph s graph \<sigma>)) i = Some g0"
  "graphOf \<sigma> i = Some g0 \<Longrightarrow> graphOf (snd (bindEach ts graph \<sigma>)) i = Some g0"
proof (induction s graph \<sigma> and ts graph \<sigma> rule: bindToGraph_bindEach.induct)
  case (1 s graph \<sigma>)
  show ?case
  proof (cases "s < length (states \<sigma>) \<and> containingGraph (states \<sigma> ! s) = None")
    case False
    with "1.prems" show ?thesis
      by (auto simp: bindToGraph.simps[of s graph \<sigma>] split: option.splits)
  next
    case True
    let ?\<sigma>2 = "whenBoundToGraph s graph (setContainingGraph s graph \<sigma>)"
    have "i \<noteq> s" using True "1.prems" by (auto simp: graphOf_def)
    then have g2: "graphOf ?\<sigma>2 i = Some g0"
      using "1.prems" by (simp add: graphOf_first_step)
    obtain e3 \<sigma>3 where r3: "bindEach (incomingStates (states \<sigma> ! s)) graph ?\<sigma>2 = (e3, \<sigma>3)"
      by (cases "bindEach (incomingStates (states \<sigma> ! s)) graph ?\<sigma>2")
    have g3: "graphOf \<sigma>3 i = Some g0"
      using "1.IH"(1) True r3 g2 by simp
    show ?thesis
    proof (cases e3)
      case (Some e)
      with True r3 g3 show ?thesis
        by (simp add: bindToGraph.simps[of s graph \<sigma>])
    next
      case None
      obtain e4 \<sigma>4
        where r4: "bindEach (outgoingTransitions allHandlers (states \<sigma>3 ! s)) graph \<sigma>3 = (e4, \<sigma>4)"
        by (cases "bindEach (outgoingTransitions allHandlers (states \<sigma>3 ! s)) graph \<sigma>3")
      have g4: "graphOf \<sigma>4 i = Some g0"
        using "1.IH"(2)[of e3 \<sigma>3] True r3 None r4 g3 by simp
      have "graphOf (registerSubGraphs s graph \<sigma>4) = graphOf \<sigma>4"
        by (rule graphOf_states_cong) simp
      with True r3 None r4 g3 g4 show ?thesis
        by (cases e4) (simp_all add: bindToGraph.simps[of s graph \<sigma>])
    qed
  qed
next
  case (2 graph \<sigma>)
  then show ?case by simp
next
  case (3 t ts graph \<sigma>)
  obtain e \<sigma>' where r: "bindToGraph t graph \<sigma> = (e, \<sigma>')"
    by (cases "bindToGraph t graph \<sigma>")
  have g1: "graphOf \<sigma>' i = Some g0"
    using "3.IH"(1) "3.prems" r by simp
  show ?case
  proof (cases e)
    case (Some x)
    with r g1 show ?thesis by simp
  next
    case None
    have "graphOf (snd (bindEach ts graph \<sigma>')) i = Some g0"
      using "3.IH"(2)[of e \<sigma>'] r None g1 by simp
    with r None show ?thesis by simp
  qed
qed

lemma bind_success_binds:
  "fst (bindToGraph s graph \<sigma>) = None \<Longrightarrow> graphOf (snd (bindToGraph s graph \<sigma>)) s = Some graph"
  "fst (bindEach ts graph \<sigma>) = None \<Longrightarrow> \<forall>t \<in> set ts. graphOf (snd (bindEach ts graph \<sigma>)) t = Some graph"
proof (induction s graph \<sigma> and ts graph \<sigma> rule: bindToGraph_bindEach.induct)
  case (1 s graph \<sigma>)
  show ?case
  proof (cases "s < length (states \<sigma>) \<and> containingGraph (states \<sigma> ! s) = None")
    case False
    with "1.prems" show ?thesis
      by (auto simp: bindToGraph.simps[of s graph \<sigma>] graphOf_def split: option.splits if_splits)
  next
    case True
    let ?\<sigma>2 = "whenBoundToGraph s graph (setContainingGraph s graph \<sigma>)"
    have g2: "graphOf ?\<sigma>2 s = Some graph"
      using True by (simp add: graphOf_first_step)
    have "graphOf (snd (bindEach (incomingStates (states \<sigma> ! s)) graph ?\<sigma>2)) s = Some graph"
      using g2 by (rule bind_keeps_bound(2))
    moreover obtain e3 \<sigma>3 where r3: "bindEach (incomingStates (states \<sigma> ! s)) graph ?\<sigma>2 = (e3, \<sigma>3)"
      by (cases "bindEach (incomingStates (states \<sigma> ! s)) graph ?\<sigma>2")
    ultimately have g3: "graphOf \<sigma>3 s = Some graph" by simp
    have "graphOf (snd (bindEach (outgoingTransitions allHandlers (states \<sigma>3 ! s)) graph \<sigma>3)) s = Some graph"
      using g3 by (rule bind_keeps_bound(2))
    moreover obtain e4 \<sigma>4
        where r4: "bindEach (outgoingTransitions allHandlers (states \<sigma>3 ! s)) graph \<sigma>3 = (e4, \<sigma>4)"
      by (cases "bindEach (outgoingTransitions allHandlers (states \<sigma>3 ! s)) graph \<sigma>3")
    ultimately have g4: "graphOf \<sigma>4 s = Some graph" by simp
    have "graphOf (registerSubGraphs s graph \<sigma>4) = graphOf \<sigma>4"
      by (rule graphOf_states_cong) simp
    with True r3 r4 g3 g4 show ?thesis
      by (cases e3; cases e4) (simp_all add: bindToGraph.simps[of s graph \<sigma>])
  qed
next
  case (2 graph \<sigma>)
  show ?case by simp
next
  case (3 t ts graph \<sigma>)
  obtain e \<sigma>' where r: "bindToGraph t graph \<sigma> = (e, \<sigma>')"
    by (cases "bindToGraph t graph \<sigma>")
  show ?case
  proof (cases e)
    case (Some x)
    with r "3.prems" show ?thesis by simp
  next
    case None
    have t1: "graphOf \<sigma>' t = Some graph"
      using "3.IH"(1) r None by simp
    have ok: "fst (bindEach ts graph \<sigma>') = None"
      using "3.prems" r None by simp
    have rest: "\<forall>u \<in> set ts. graphOf (snd (bindEach ts graph \<sigma>')) u = Some graph"
      using "3.IH"(2)[of e \<sigma>'] r None ok by simp
    have "graphOf (snd (bindEach ts graph \<sigma>')) t = Some graph"
      using t1 by (rule bind_keeps_bound(2))
    with rest r None show ?thesis by simp
  qed
qed

lemma bind_neighbours:
  assumes s: "s < length (states \<sigma>)" and un: "containingGraph (states \<sigma> ! s) = None"
    and ok: "fst (bindToGraph s graph \<sigma>) = None"
    and t: "t \<in> set (incomingStates (states \<sigma> ! s)) \<union> set (outgoingTransitions allHandlers (states \<sigma> ! s))"
  shows "graphOf (snd (bindToGraph s graph \<sigma>)) t = Some graph"
proof -
  let ?\<sigma>2 = "whenBoundToGraph s graph (setContainingGraph s graph \<sigma>)"
  obtain e3 \<sigma>3 where r3: "bindEach (incomingStates (states \<sigma> ! s)) graph ?\<sigma>2 = (e3, \<sigma>3)"
    by (cases "bindEach (incomingStates (states \<sigma> ! s)) graph ?\<sigma>2")
  obtain e4 \<sigma>4
    where r4: "bindEach (outgoingTransitions allHandlers (states \<sigma>3 ! s)) graph \<sigma>3 = (e4, \<sigma>4)"
    by (cases "bindEach (outgoingTransitions allHandlers (states \<sigma>3 ! s)) graph \<sigma>3")
  have e3: "e3 = None" and e4: "e4 = None"
    using ok s un r3 r4 by (cases e3; cases e4; simp add: bindToGraph.simps[of s graph \<sigma>])+
  have res: "snd (bindToGraph s graph \<sigma>) = registerSubGraphs s graph \<sigma>4"
    using s un r3 r4 e3 e4 by (simp add: bindToGraph.simps[of s graph \<sigma>])
  have sk3: "skeleton \<sigma>3 = skeleton \<sigma>"
    using bind_skeleton(2)[of "incomingStates (states \<sigma> ! s)" graph ?\<sigma>2] r3
    by (simp add: skeleton_first_step)
  have out3: "outgoingTransitions allHandlers (states \<sigma>3 ! s) = outgoingTransitions allHandlers (states \<sigma> ! s)"
    by (rule skeleton_fields(1)[OF sk3 s])
  have inc: "\<forall>u \<in> set (incomingStates (states \<sigma> ! s)). graphOf \<sigma>3 u = Some graph"
    using bind_success_binds(2)[of "incomingStates (states \<sigma> ! s)" graph ?\<sigma>2] r3 e3 by simp
  have out: "\<forall>u \<in> set (outgoingTransitions allHandlers (states \<sigma> ! s)). graphOf \<sigma>4 u = Some graph"
    using bind_success_binds(2)[of "outgoingTransitions allHandlers (states \<sigma>3 ! s)" graph \<sigma>3] r4 e4 out3
    by simp
  have keep: "graphOf \<sigma>3 u = Some graph \<Longrightarrow> graphOf \<sigma>4 u = Some graph" for u
    using bind_keeps_bound(2)[of \<sigma>3 u graph "outgoingTransitions allHandlers (states \<sigma>3 ! s)" graph] r4
    by simp
  have "graphOf \<sigma>4 t = Some graph"
    using t inc out keep by auto
  moreover have "graphOf (registerSubGraphs s graph \<sigma>4) = graphOf \<sigma>4"
    by (rule graphOf_states_cong) simp
  ultimately show ?thesis using res by simp
qed

lemma graphOf_modState:
  "(\<And>st. containingGraph (f st) = containingGraph st) \<Longrightarrow> graphOf (modState s f \<sigma>) = graphOf \<sigma>"
proof (rule ext)
  fix i
  assume f: "\<And>st. containingGraph (f st) = containingGraph st"
  show "graphOf (modState s f \<sigma>) i = graphOf \<sigma> i"
  proof (cases "i = s")
    case True
    with f show ?thesis by (simp add: graphOf_def modState_def)
  next
    case False
    then show ?thesis by (simp add: graphOf_def modState_def)
  qed
qed

lemma graphOf_addIncoming [simp]: "graphOf (addIncoming t s \<sigma>) = graphOf \<sigma>"
  by (simp add: addIncoming_def graphOf_modState)

lemma length_modState [simp]: "length (states (modState s f \<sigma>)) = length (states \<sigma>)"
  by (simp add: modState_def)

lemma length_addIncoming [simp]: "length (states (addIncoming t s \<sigma>)) = length (states \<sigma>)"
  by (simp add: addIncoming_def)

lemma nth_modState:
  "i < length (states \<sigma>) \<Longrightarrow>
   states (modState s f \<sigma>) ! i = (if i = s then f (states \<sigma> ! i) else states \<sigma> ! i)"
  by (simp add: modState_def nth_list_update)

lemma bindIfBound_unbound:
  "s < length (states \<sigma>) \<Longrightarrow> graphOf \<sigma> s = None \<Longrightarrow> bindIfBound s t \<sigma> = (None, \<sigma>)"
  by (simp add: bindIfBound_def graphOf_def)

lemma makeNext_unbound:
  assumes "a < length (states \<sigma>0)" "b < length (states \<sigma>0)" "graphOf \<sigma>0 a = None"
  shows "makeNext a b \<sigma>0 = (None, \<sigma>) \<Longrightarrow>
         length (states \<sigma>) = length (states \<sigma>0) \<and> graphOf \<sigma> = graphOf \<sigma>0 \<and>
         b \<in> set (outgoingTransitions allHandlers (states \<sigma> ! a)) \<and>
         a \<in> set (incomingStates (states \<sigma> ! b))"
proof -
  let ?\<sigma>1 = "addIncoming b a (modState a (\<lambda>st. st\<lparr>x_next := Some b\<rparr>) \<sigma>0)"
  assume r: "makeNext a b \<sigma>0 = (None, \<sigma>)"
  have g1: "graphOf ?\<sigma>1 = graphOf \<sigma>0" by (simp add: graphOf_modState)
  have "x_next (states \<sigma>0 ! a) = None"
    using r assms by (auto simp: makeNext_def split: if_splits)
  then have "makeNext a b \<sigma>0 = bindIfBound a b ?\<sigma>1"
    using assms by (simp add: makeNext_def)
  also have "\<dots> = (None, ?\<sigma>1)"
    using assms g1 by (intro bindIfBound_unbound) simp_all
  finally have eq: "\<sigma> = ?\<sigma>1" using r by simp
  have "x_next (states ?\<sigma>1 ! a) = Some b"
    using assms by (simp add: addIncoming_def nth_modState)
  then have "b \<in> set (outgoingTransitions allHandlers (states ?\<sigma>1 ! a))"
    by (simp add: outgoingTransitions_def)
  moreover have "a \<in> set (incomingStates (states ?\<sigma>1 ! b))"
    using assms by (simp add: addIncoming_def nth_modState)
  ultimately show ?thesis using eq g1 by simp
qed

lemma addChoice_unbound:
  assumes "a < length (states \<sigma>0)" "next_ch c < length (states \<sigma>0)" "graphOf \<sigma>0 a = None"
  shows "addChoice a c \<sigma>0 = (None, \<sigma>) \<Longrightarrow>
         length (states \<sigma>) = length (states \<sigma>0) \<and> graphOf \<sigma> = graphOf \<sigma>0 \<and>
         next_ch c \<in> set (outgoingTransitions allHandlers (states \<sigma> ! a)) \<and>
         a \<in> set (incomingStates (states \<sigma> ! next_ch c))"
proof -
  let ?\<sigma>1 = "addIncoming (next_ch c) a (modState a (\<lambda>st. st\<lparr>choices := choices st @ [c]\<rparr>) \<sigma>0)"
  assume r: "addChoice a c \<sigma>0 = (None, \<sigma>)"
  have g1: "graphOf ?\<sigma>1 = graphOf \<sigma>0" by (simp add: graphOf_modState)
  have "addChoice a c \<sigma>0 = bindIfBound a (next_ch c) ?\<sigma>1"
    using assms by (simp add: addChoice_def)
  also have "\<dots> = (None, ?\<sigma>1)"
    using assms g1 by (intro bindIfBound_unbound) simp_all
  finally have eq: "\<sigma> = ?\<sigma>1" using r by simp
  have "choices (states ?\<sigma>1 ! a) = choices (states \<sigma>0 ! a) @ [c]"
    using assms by (simp add: addIncoming_def nth_modState)
  then have "next_ch c \<in> set (outgoingTransitions allHandlers (states ?\<sigma>1 ! a))"
    by (simp add: outgoingTransitions_def)
  moreover have "a \<in> set (incomingStates (states ?\<sigma>1 ! next_ch c))"
    using assms by (simp add: addIncoming_def nth_modState)
  ultimately show ?thesis using eq g1 by simp
qed

lemma addCatch_unbound:
  assumes "a < length (states \<sigma>0)" "b < length (states \<sigma>0)" "graphOf \<sigma>0 a = None"
  shows "addCatch a b cp \<sigma>0 = (None, \<sigma>) \<Longrightarrow>
         length (states \<sigma>) = length (states \<sigma>0) \<and> graphOf \<sigma> = graphOf \<sigma>0 \<and>
         b \<in> set (outgoingTransitions allHandlers (states \<sigma> ! a)) \<and>
         a \<in> set (incomingStates (states \<sigma> ! b))"
proof -
  define c where "c = \<lparr>next_c = b,
             props = \<lparr>errors_c = Some (case errors_c cp of None \<Rightarrow> [Errors_ALL] | Some xs \<Rightarrow> xs),
                      resultPath_c = resultPath_c cp,
                      outputs_c = outputs_c cp, assign_c = assign_c cp\<rparr>\<rparr>"
  define \<sigma>1 where "\<sigma>1 = addIncoming b a (modState a (\<lambda>st. st\<lparr>catches := catches st @ [c]\<rparr>) \<sigma>0)"
  assume r: "addCatch a b cp \<sigma>0 = (None, \<sigma>)"
  have g1: "graphOf \<sigma>1 = graphOf \<sigma>0" by (simp add: \<sigma>1_def graphOf_modState)
  have l1: "length (states \<sigma>1) = length (states \<sigma>0)" by (simp add: \<sigma>1_def)
  have "validateErrors (errors_c cp) = None"
    using r assms by (auto simp: addCatch_def split: option.splits)
  then have "addCatch a b cp \<sigma>0 = bindIfBound a b \<sigma>1"
    using assms unfolding \<sigma>1_def c_def by (simp add: addCatch_def)
  also have "\<dots> = (None, \<sigma>1)"
    using assms g1 l1 by (intro bindIfBound_unbound) simp_all
  finally have eq: "\<sigma> = \<sigma>1" using r by simp
  have "catches (states \<sigma>1 ! a) = catches (states \<sigma>0 ! a) @ [c]"
    using assms by (simp add: \<sigma>1_def addIncoming_def nth_modState)
  then have "next_c c \<in> set (outgoingTransitions allHandlers (states \<sigma>1 ! a))"
    by (simp add: outgoingTransitions_def allHandlers_def)
  then have "b \<in> set (outgoingTransitions allHandlers (states \<sigma>1 ! a))"
    by (simp add: c_def)
  moreover have "a \<in> set (incomingStates (states \<sigma>1 ! b))"
    using assms by (simp add: \<sigma>1_def addIncoming_def nth_modState)
  ultimately show ?thesis using eq g1 l1 by simp
qed

lemma makeDefault_unbound:
  assumes "a < length (states \<sigma>0)" "b < length (states \<sigma>0)"
  shows "makeDefault a b \<sigma>0 = (None, \<sigma>) \<Longrightarrow>
         length (states \<sigma>) = length (states \<sigma>0) \<and> graphOf \<sigma> = graphOf \<sigma>0 \<and>
         b \<in> set (outgoingTransitions allHandlers (states \<sigma> ! a)) \<and>
         map incomingStates (states \<sigma>) = map incomingStates (states \<sigma>0)"
proof -
  let ?\<sigma>1 = "modState a (\<lambda>st. st\<lparr>defaultChoice := Some b\<rparr>) \<sigma>0"
  assume r: "makeDefault a b \<sigma>0 = (None, \<sigma>)"
  then have eq: "\<sigma> = ?\<sigma>1"
    using assms by (auto simp: makeDefault_def split: if_splits)
  have "defaultChoice (states ?\<sigma>1 ! a) = Some b"
    using assms by (simp add: nth_modState)
  then have "b \<in> set (outgoingTransitions allHandlers (states ?\<sigma>1 ! a))"
    by (simp add: outgoingTransitions_def)
  moreover have "map incomingStates (states ?\<sigma>1) = map incomingStates (states \<sigma>0)"
    using assms by (simp add: modState_def map_update list_update_same_conv)
  ultimately show ?thesis using eq by (simp add: graphOf_modState)
qed

lemma bind_sets_only_graph:
  "graphOf (snd (bindToGraph s graph \<sigma>)) i \<in> {graphOf \<sigma> i, Some graph}"
  "graphOf (snd (bindEach ts graph \<sigma>)) i \<in> {graphOf \<sigma> i, Some graph}"
proof (induction s graph \<sigma> and ts graph \<sigma> rule: bindToGraph_bindEach.induct)
  case (1 s graph \<sigma>)
  show ?case
  proof (cases "s < length (states \<sigma>) \<and> containingGraph (states \<sigma> ! s) = None")
    case False
    then show ?thesis
      by (auto simp: bindToGraph.simps[of s graph \<sigma>] split: option.splits)
  next
    case True
    let ?\<sigma>2 = "whenBoundToGraph s graph (setContainingGraph s graph \<sigma>)"
    have g2: "graphOf ?\<sigma>2 i \<in> {graphOf \<sigma> i, Some graph}"
      by (simp add: graphOf_first_step)
    obtain e3 \<sigma>3 where r3: "bindEach (incomingStates (states \<sigma> ! s)) graph ?\<sigma>2 = (e3, \<sigma>3)"
      by (cases "bindEach (incomingStates (states \<sigma> ! s)) graph ?\<sigma>2")
    have g3: "graphOf \<sigma>3 i \<in> {graphOf \<sigma> i, Some graph}"
      using "1.IH"(1) True r3 g2 by auto
    show ?thesis
    proof (cases e3)
      case (Some e)
      with True r3 g3 show ?thesis
        by (simp add: bindToGraph.simps[of s graph \<sigma>])
    next
      case None
      obtain e4 \<sigma>4
        where r4: "bindEach (outgoingTransitions allHandlers (states \<sigma>3 ! s)) graph \<sigma>3 = (e4, \<sigma>4)"
        by (cases "bindEach (outgoingTransitions allHandlers (states \<sigma>3 ! s)) graph \<sigma>3")
      have g4: "graphOf \<sigma>4 i \<in> {graphOf \<sigma> i, Some graph}"
        using "1.IH"(2)[of e3 \<sigma>3] True r3 None r4 g3 by auto
      have "graphOf (registerSubGraphs s graph \<sigma>4) = graphOf \<sigma>4"
        by (rule graphOf_states_cong) simp
      with True r3 None r4 g3 g4 show ?thesis
        by (cases e4) (simp_all add: bindToGraph.simps[of s graph \<sigma>])
    qed
  qed
next
  case (2 graph \<sigma>)
  show ?case by simp
next
  case (3 t ts graph \<sigma>)
  obtain e \<sigma>' where r: "bindToGraph t graph \<sigma> = (e, \<sigma>')"
    by (cases "bindToGraph t graph \<sigma>")
  have g1: "graphOf \<sigma>' i \<in> {graphOf \<sigma> i, Some graph}"
    using "3.IH"(1) r by simp
  show ?case
  proof (cases e)
    case (Some x)
    with r g1 show ?thesis by simp
  next
    case None
    have "graphOf (snd (bindEach ts graph \<sigma>')) i \<in> {graphOf \<sigma>' i, Some graph}"
      using "3.IH"(2)[of e \<sigma>'] r None by simp
    with r None g1 show ?thesis by auto
  qed
qed

lemma onlyGraph_graphOf: "onlyGraph graph \<sigma> = (\<forall>i. graphOf \<sigma> i \<in> {None, Some graph})"
  by (auto simp: onlyGraph_def graphOf_def)

lemma onlyGraph_bindEach:
  "onlyGraph graph \<sigma> \<Longrightarrow> onlyGraph graph (snd (bindEach ts graph \<sigma>))"
  unfolding onlyGraph_graphOf
proof
  fix i
  assume a: "\<forall>i. graphOf \<sigma> i \<in> {None, Some graph}"
  from a have "graphOf \<sigma> i \<in> {None, Some graph}" ..
  with bind_sets_only_graph(2)[of ts graph \<sigma> i]
  show "graphOf (snd (bindEach ts graph \<sigma>)) i \<in> {None, Some graph}" by auto
qed

lemma onlyGraph_bindToGraph:
  "onlyGraph graph \<sigma> \<Longrightarrow> onlyGraph graph (snd (bindToGraph s graph \<sigma>))"
  unfolding onlyGraph_graphOf
proof
  fix i
  assume a: "\<forall>i. graphOf \<sigma> i \<in> {None, Some graph}"
  from a have "graphOf \<sigma> i \<in> {None, Some graph}" ..
  with bind_sets_only_graph(1)[of s graph \<sigma> i]
  show "graphOf (snd (bindToGraph s graph \<sigma>)) i \<in> {None, Some graph}" by auto
qed

lemma onlyGraph_first_step:
  "onlyGraph graph \<sigma> \<Longrightarrow> onlyGraph graph (whenBoundToGraph s graph (setContainingGraph s graph \<sigma>))"
  unfolding onlyGraph_graphOf by (simp add: graphOf_first_step)

lemma liveRefs_skeleton:
  assumes "skeleton \<sigma>' = skeleton \<sigma>" "liveRefs \<sigma>"
  shows "liveRefs \<sigma>'"
  unfolding liveRefs_def
proof (intro allI impI ballI)
  fix i t
  assume i: "i < length (states \<sigma>')"
    and t: "t \<in> set (incomingStates (states \<sigma>' ! i)) \<union> set (outgoingTransitions allHandlers (states \<sigma>' ! i))"
  have len: "length (states \<sigma>') = length (states \<sigma>)" by (rule skeleton_length[OF assms(1)])
  then have i': "i < length (states \<sigma>)" using i by simp
  have "t \<in> set (incomingStates (states \<sigma> ! i)) \<union> set (outgoingTransitions allHandlers (states \<sigma> ! i))"
    using t skeleton_fields[OF assms(1) i'] by simp
  then have "t < length (states \<sigma>)" using assms(2) i' by (auto simp: liveRefs_def)
  then show "t < length (states \<sigma>')" using len by simp
qed

lemma bind_never_throws:
  "liveRefs \<sigma> \<Longrightarrow> onlyGraph graph \<sigma> \<Longrightarrow> s < length (states \<sigma>) \<Longrightarrow>
     fst (bindToGraph s graph \<sigma>) = None"
  "liveRefs \<sigma> \<Longrightarrow> onlyGraph graph \<sigma> \<Longrightarrow> \<forall>t \<in> set ts. t < length (states \<sigma>) \<Longrightarrow>
     fst (bindEach ts graph \<sigma>) = None"
proof (induction s graph \<sigma> and ts graph \<sigma> rule: bindToGraph_bindEach.induct)
  case (1 s graph \<sigma>)
  show ?case
  proof (cases "containingGraph (states \<sigma> ! s)")
    case (Some g)
    with "1.prems" have "g = graph" by (auto simp: onlyGraph_def)
    with Some "1.prems" show ?thesis by (simp add: bindToGraph.simps[of s graph \<sigma>])
  next
    case None
    let ?\<sigma>2 = "whenBoundToGraph s graph (setContainingGraph s graph \<sigma>)"
    have s: "s < length (states \<sigma>)" by (rule "1.prems"(3))
    have sk2: "skeleton ?\<sigma>2 = skeleton \<sigma>" by (rule skeleton_first_step)
    have live2: "liveRefs ?\<sigma>2" by (rule liveRefs_skeleton[OF sk2 "1.prems"(1)])
    have only2: "onlyGraph graph ?\<sigma>2" by (rule onlyGraph_first_step[OF "1.prems"(2)])
    have len2: "length (states ?\<sigma>2) = length (states \<sigma>)" by (rule skeleton_length[OF sk2])
    have inc: "\<forall>t \<in> set (incomingStates (states \<sigma> ! s)). t < length (states ?\<sigma>2)"
      using "1.prems"(1) s len2 by (auto simp: liveRefs_def)
    obtain e3 \<sigma>3 where r3: "bindEach (incomingStates (states \<sigma> ! s)) graph ?\<sigma>2 = (e3, \<sigma>3)"
      by (cases "bindEach (incomingStates (states \<sigma> ! s)) graph ?\<sigma>2")
    have e3: "e3 = None"
      using "1.IH"(1)[OF _ None live2 only2 inc] s r3 by simp
    have sk3: "skeleton \<sigma>3 = skeleton \<sigma>"
      using bind_skeleton(2)[of "incomingStates (states \<sigma> ! s)" graph ?\<sigma>2] r3 sk2 by simp
    have live3: "liveRefs \<sigma>3" by (rule liveRefs_skeleton[OF sk3 "1.prems"(1)])
    have only3: "onlyGraph graph \<sigma>3"
      using onlyGraph_bindEach[OF only2, of "incomingStates (states \<sigma> ! s)"] r3 by simp
    have len3: "length (states \<sigma>3) = length (states \<sigma>)" by (rule skeleton_length[OF sk3])
    have out: "\<forall>t \<in> set (outgoingTransitions allHandlers (states \<sigma>3 ! s)). t < length (states \<sigma>3)"
      using live3 s len3 by (auto simp: liveRefs_def)
    obtain e4 \<sigma>4
      where r4: "bindEach (outgoingTransitions allHandlers (states \<sigma>3 ! s)) graph \<sigma>3 = (e4, \<sigma>4)"
      by (cases "bindEach (outgoingTransitions allHandlers (states \<sigma>3 ! s)) graph \<sigma>3")
    have e4: "e4 = None"
      using "1.IH"(2)[OF _ None _ _ live3 only3 out, of e3] s r3 e3 r4 by simp
    show ?thesis
      using s None r3 e3 r4 e4 by (simp add: bindToGraph.simps[of s graph \<sigma>])
  qed
next
  case (2 graph \<sigma>)
  show ?case by simp
next
  case (3 t ts graph \<sigma>)
  obtain e \<sigma>' where r: "bindToGraph t graph \<sigma> = (e, \<sigma>')"
    by (cases "bindToGraph t graph \<sigma>")
  have e: "e = None"
    using "3.IH"(1)[OF "3.prems"(1,2)] "3.prems"(3) r by simp
  have sk: "skeleton \<sigma>' = skeleton \<sigma>"
    using bind_skeleton(1)[of t graph \<sigma>] r by simp
  have live: "liveRefs \<sigma>'" by (rule liveRefs_skeleton[OF sk "3.prems"(1)])
  have only: "onlyGraph graph \<sigma>'"
    using onlyGraph_bindToGraph[OF "3.prems"(2), of t] r by simp
  have "\<forall>u \<in> set ts. u < length (states \<sigma>')"
    using "3.prems"(3) skeleton_length[OF sk] by simp
  then have "fst (bindEach ts graph \<sigma>') = None"
    using "3.IH"(2)[OF _ _ live only, of e] r e by simp
  with r e show ?case by simp
qed

lemma outgoingTransitions_incomingStates [simp]:
  "outgoingTransitions options (st\<lparr>incomingStates := xs\<rparr>) = outgoingTransitions options st"
  by (simp add: outgoingTransitions_def)

lemma liveRefs_declare:
  assumes live: "liveRefs \<sigma>0" and a: "a < length (states \<sigma>0)" and b: "b < length (states \<sigma>0)"
    and inc: "\<And>st. incomingStates (f st) = incomingStates st"
    and out: "\<And>st. set (outgoingTransitions allHandlers (f st)) \<subseteq> insert b (set (outgoingTransitions allHandlers st))"
  shows "liveRefs (addIncoming b a (modState a f \<sigma>0))"
  unfolding liveRefs_def
proof (intro allI impI ballI)
  let ?\<sigma> = "addIncoming b a (modState a f \<sigma>0)"
  fix i t
  assume i: "i < length (states ?\<sigma>)"
    and t: "t \<in> set (incomingStates (states ?\<sigma> ! i)) \<union> set (outgoingTransitions allHandlers (states ?\<sigma> ! i))"
  have i0: "i < length (states \<sigma>0)" using i by simp
  have old: "u < length (states \<sigma>0)"
    if "u \<in> set (incomingStates (states \<sigma>0 ! i)) \<union> set (outgoingTransitions allHandlers (states \<sigma>0 ! i))" for u
    using live i0 that by (auto simp: liveRefs_def)
  have st: "states ?\<sigma> ! i =
      (if i = b then (\<lambda>st. st\<lparr>incomingStates := incomingStates st @ [a]\<rparr>) else (\<lambda>st. st))
        ((if i = a then f else (\<lambda>st. st)) (states \<sigma>0 ! i))"
    using i0 by (simp add: addIncoming_def nth_modState)
  have "set (incomingStates (states ?\<sigma> ! i)) \<subseteq> insert a (set (incomingStates (states \<sigma>0 ! i)))"
    unfolding st using inc by auto
  moreover have "set (outgoingTransitions allHandlers (states ?\<sigma> ! i))
      \<subseteq> insert b (set (outgoingTransitions allHandlers (states \<sigma>0 ! i)))"
    unfolding st using out by auto
  ultimately have "t = a \<or> t = b \<or>
      t \<in> set (incomingStates (states \<sigma>0 ! i)) \<union> set (outgoingTransitions allHandlers (states \<sigma>0 ! i))"
    using t by auto
  then have "t < length (states \<sigma>0)" using a b old by auto
  then show "t < length (states ?\<sigma>)" by simp
qed

lemma makeNext_liveRefs:
  assumes "liveRefs \<sigma>0" "a < length (states \<sigma>0)" "b < length (states \<sigma>0)" "graphOf \<sigma>0 a = None"
    and "makeNext a b \<sigma>0 = (None, \<sigma>)"
  shows "liveRefs \<sigma>"
proof -
  let ?f = "\<lambda>st. st\<lparr>x_next := Some b\<rparr>"
  let ?\<sigma>1 = "addIncoming b a (modState a ?f \<sigma>0)"
  have nx: "x_next (states \<sigma>0 ! a) = None"
    using assms by (auto simp: makeNext_def split: if_splits)
  have "graphOf ?\<sigma>1 = graphOf \<sigma>0" by (simp add: graphOf_modState)
  then have "bindIfBound a b ?\<sigma>1 = (None, ?\<sigma>1)"
    using assms by (intro bindIfBound_unbound) simp_all
  then have eq: "\<sigma> = ?\<sigma>1"
    using assms nx by (simp add: makeNext_def)
  have "liveRefs ?\<sigma>1"
    by (rule liveRefs_declare[OF assms(1,2,3)])
       (auto simp: outgoingTransitions_def split: option.splits)
  with eq show ?thesis by simp
qed

lemma addChoice_liveRefs:
  assumes "liveRefs \<sigma>0" "a < length (states \<sigma>0)" "next_ch c < length (states \<sigma>0)" "graphOf \<sigma>0 a = None"
    and "addChoice a c \<sigma>0 = (None, \<sigma>)"
  shows "liveRefs \<sigma>"
proof -
  let ?f = "\<lambda>st. st\<lparr>choices := choices st @ [c]\<rparr>"
  let ?\<sigma>1 = "addIncoming (next_ch c) a (modState a ?f \<sigma>0)"
  have "graphOf ?\<sigma>1 = graphOf \<sigma>0" by (simp add: graphOf_modState)
  then have "bindIfBound a (next_ch c) ?\<sigma>1 = (None, ?\<sigma>1)"
    using assms by (intro bindIfBound_unbound) simp_all
  then have eq: "\<sigma> = ?\<sigma>1"
    using assms by (simp add: addChoice_def)
  have "liveRefs ?\<sigma>1"
    by (rule liveRefs_declare[OF assms(1,2,3)])
       (auto simp: outgoingTransitions_def split: option.splits)
  with eq show ?thesis by simp
qed

lemma addCatch_liveRefs:
  assumes "liveRefs \<sigma>0" "a < length (states \<sigma>0)" "b < length (states \<sigma>0)" "graphOf \<sigma>0 a = None"
    and "addCatch a b cp \<sigma>0 = (None, \<sigma>)"
  shows "liveRefs \<sigma>"
proof -
  define c where "c = \<lparr>next_c = b,
             props = \<lparr>errors_c = Some (case errors_c cp of None \<Rightarrow> [Errors_ALL] | Some xs \<Rightarrow> xs),
                      resultPath_c = resultPath_c cp,
                      outputs_c = outputs_c cp, assign_c = assign_c cp\<rparr>\<rparr>"
  define f :: "State \<Rightarrow> State" where "f = (\<lambda>st. st\<lparr>catches := catches st @ [c]\<rparr>)"
  define \<sigma>1 where "\<sigma>1 = addIncoming b a (modState a f \<sigma>0)"
  have v: "validateErrors (errors_c cp) = None"
    using assms by (auto simp: addCatch_def split: option.splits)
  have "graphOf \<sigma>1 = graphOf \<sigma>0" by (simp add: \<sigma>1_def f_def graphOf_modState)
  then have "bindIfBound a b \<sigma>1 = (None, \<sigma>1)"
    using assms by (intro bindIfBound_unbound) (simp_all add: \<sigma>1_def)
  moreover have "addCatch a b cp \<sigma>0 = bindIfBound a b \<sigma>1"
    using assms v unfolding \<sigma>1_def f_def c_def by (simp add: addCatch_def)
  ultimately have eq: "\<sigma> = \<sigma>1"
    using assms by simp
  have "liveRefs \<sigma>1"
    unfolding \<sigma>1_def
    by (rule liveRefs_declare[OF assms(1,2,3)])
       (auto simp: f_def c_def outgoingTransitions_def allHandlers_def split: option.splits)
  with eq show ?thesis by simp
qed

section \<open>Query language\<close>

text \<open>
  C6. The state-level query language wins over the top-level one, and JSONPath is the
  default when neither is set. \<open>renderQueryLanguage\<close> throws exactly when the top level is
  JSONata and the state itself asks for JSONPath; when the top level is JSONPath (given or
  by default) and the state asks for JSONata, the rendered \<open>QueryLanguage\<close> field is JSONata.
\<close>

theorem dialect_resolution:
  "getActualQueryLanguage topQL (Some q) = q \<and>
   getActualQueryLanguage (Some r) None = r \<and>
   getActualQueryLanguage None None = JSON_PATH \<and>
   (isl (renderQueryLanguage topQL st) \<longleftrightarrow> topQL = Some JSONATA \<and> queryLanguage st = Some JSON_PATH) \<and>
   (topQL = Some JSONATA \<and> queryLanguage st = Some JSON_PATH \<longrightarrow>
      renderQueryLanguage topQL st = Inl (QueryLanguageConflict (node_path st))) \<and>
   (topQL \<noteq> Some JSONATA \<and> queryLanguage st = Some JSONATA \<longrightarrow>
      renderQueryLanguage topQL st = Inr (Some JSONATA))"
proof -
  have top_cases: "topQL = None \<or> topQL = Some JSON_PATH \<or> topQL = Some JSONATA"
    by (cases topQL) (auto intro: QueryLanguage.exhaust)
  have "isl (renderQueryLanguage topQL st) \<longleftrightarrow> topQL = Some JSONATA \<and> queryLanguage st = Some JSON_PATH"
    using top_cases
    by (cases "queryLanguage st = Some JSON_PATH") (auto simp: renderQueryLanguage_def)
  moreover have "topQL \<noteq> Some JSONATA \<and> queryLanguage st = Some JSONATA \<longrightarrow>
      renderQueryLanguage topQL st = Inr (Some JSONATA)"
    using top_cases by (auto simp: renderQueryLanguage_def)
  ultimately show ?thesis
    by (simp add: getActualQueryLanguage_def renderQueryLanguage_def)
qed

theorem dialect_resolution_witness:
  "renderQueryLanguage (Some JSONATA) (newState ''S'' ''Stack/S'' (noProps\<lparr>queryLanguage_p := Some JSON_PATH\<rparr>))
     = Inl (QueryLanguageConflict ''Stack/S'') \<and>
   renderQueryLanguage (Some JSON_PATH) (newState ''S'' ''Stack/S'' (noProps\<lparr>queryLanguage_p := Some JSONATA\<rparr>))
     = Inr (Some JSONATA) \<and>
   renderQueryLanguage None (newState ''S'' ''Stack/S'' (noProps\<lparr>queryLanguage_p := Some JSONATA\<rparr>))
     = Inr (Some JSONATA)"
  using dialect_resolution [of "Some JSONATA" JSON_PATH JSON_PATH
          "newState ''S'' ''Stack/S'' (noProps\<lparr>queryLanguage_p := Some JSON_PATH\<rparr>)"]
        dialect_resolution [of "Some JSON_PATH" JSON_PATH JSON_PATH
          "newState ''S'' ''Stack/S'' (noProps\<lparr>queryLanguage_p := Some JSONATA\<rparr>)"]
        dialect_resolution [of None JSON_PATH JSON_PATH
          "newState ''S'' ''Stack/S'' (noProps\<lparr>queryLanguage_p := Some JSONATA\<rparr>)"]
  by (simp add: newState_def noProps_def)

section \<open>JSON paths\<close>

text \<open>
  C8. \<open>renderJsonPath\<close> throws exactly when the path is defined, is not an unresolved token
  and does not start with \<open>$\<close>. A path starting with \<open>$\<close> and an unresolved token are returned
  unchanged, and \<open>undefined\<close> is returned as \<open>undefined\<close>.
\<close>

theorem renderJsonPath_cases:
  "(isl (renderJsonPath isUnresolved p) \<longleftrightarrow>
      (\<exists>s. p = Some s \<and> \<not> isUnresolved s \<and> \<not> startsWithDollar s)) \<and>
   (\<not> isUnresolved s \<and> \<not> startsWithDollar s \<longrightarrow>
      renderJsonPath isUnresolved (Some s) = Inl (JsonPathNoDollar s)) \<and>
   (startsWithDollar s \<longrightarrow> renderJsonPath isUnresolved (Some s) = Inr (Some s)) \<and>
   (isUnresolved s \<longrightarrow> renderJsonPath isUnresolved (Some s) = Inr (Some s)) \<and>
   renderJsonPath isUnresolved None = Inr None \<and>
   startsWithDollar (CHR ''$'' # rest) \<and> \<not> startsWithDollar []"
  by (cases p) (auto simp: renderJsonPath_def startsWithDollar_def)

theorem renderJsonPath_cases_witness:
  "renderJsonPath (\<lambda>_. False) (Some ''foo'') = Inl (JsonPathNoDollar ''foo'') \<and>
   renderJsonPath (\<lambda>_. False) (Some ''$.foo'') = Inr (Some ''$.foo'') \<and>
   renderJsonPath (\<lambda>s. s = ''${Token[TOKEN.1]}'') (Some ''${Token[TOKEN.1]}'') = Inr (Some ''${Token[TOKEN.1]}'') \<and>
   renderJsonPath (\<lambda>s. s = ''tok'') (Some ''tok'') = Inr (Some ''tok'')"
  using renderJsonPath_cases [of "\<lambda>_. False" "Some ''foo''" "''foo''" "[]"]
        renderJsonPath_cases [of "\<lambda>_. False" "Some ''$.foo''" "''$.foo''" "[]"]
        renderJsonPath_cases [of "\<lambda>s. s = ''${Token[TOKEN.1]}''" None "''${Token[TOKEN.1]}''" "[]"]
        renderJsonPath_cases [of "\<lambda>s. s = ''tok''" None "''tok''" "[]"]
  by (simp add: startsWithDollar_def)

section \<open>The comparator of the render-time sort\<close>

text \<open>
  C10. \<open>compareErrors\<close> answers 1 whenever its first argument contains \<open>Errors.ALL\<close>, also
  when the second does, and 0 when neither does. Two \<open>_addRetry\<close> calls without an error list
  both succeed and leave two rules that each carry \<open>Errors.ALL\<close>; on them the comparator
  answers 1 in both directions, so it is not antisymmetric.
\<close>

theorem compareErrors_not_antisymmetric:
  "(includesALL a \<longrightarrow> compareErrors a b = 1) \<and>
   (\<not> includesALL a \<and> \<not> includesALL b \<longrightarrow> compareErrors a b = 0) \<and>
   (includesALL a \<and> includesALL b \<longrightarrow> compareErrors a b = 1 \<and> compareErrors b a = 1) \<and>
   (\<exists>st1 st2 r1 r2.
      addRetry emptyRetryProps st = Inr st1 \<and> addRetry emptyRetryProps st1 = Inr st2 \<and>
      retries st2 = retries st @ [r1, r2] \<and>
      includesALL (errors r1) \<and> includesALL (errors r2) \<and>
      compareErrors (errors r1) (errors r2) = 1 \<and> compareErrors (errors r2) (errors r1) = 1)"
  by (simp add: compareErrors_def addRetry_def validateErrors_def emptyRetryProps_def includesALL_def)

theorem compareErrors_not_antisymmetric_witness:
  "compareErrors (Some [Errors_ALL]) (Some [Errors_ALL]) = 1 \<and>
   compareErrors (Some [Errors_ALL]) (Some [''States.Timeout'']) = 1 \<and>
   compareErrors (Some [''States.Timeout'']) None = 0"
  using compareErrors_not_antisymmetric [of "Some [Errors_ALL]" "Some [Errors_ALL]" "newState ''S'' ''S'' noProps"]
        compareErrors_not_antisymmetric [of "Some [Errors_ALL]" "Some [''States.Timeout'']" "newState ''S'' ''S'' noProps"]
        compareErrors_not_antisymmetric [of "Some [''States.Timeout'']" None "newState ''S'' ''S'' noProps"]
  by (simp add: includesALL_def Errors_ALL_def)

section \<open>Prefixes and the state id\<close>

text \<open>
  C5, as stated, fails: after \<open>addPrefix "A"\<close> and then \<open>addPrefix "B"\<close> the state id of a
  state with id \<open>S\<close> is \<open>BAS\<close>, not \<open>ABS\<close>; and a \<open>stateName\<close> that is set to the empty string
  is not used, the id is.
\<close>

theorem prefix_order_counterexample:
  "stateId (addPrefix ''B'' (addPrefix ''A'' (newState ''S'' ''S'' noProps))) = ''BAS'' \<and>
   stateId (addPrefix ''B'' (addPrefix ''A'' (newState ''S'' ''S'' noProps)))
     \<noteq> ''AB'' @ stateId (newState ''S'' ''S'' noProps) \<and>
   stateId (newState ''S'' ''S'' (noProps\<lparr>stateName_p := Some ''''\<rparr>)) = ''S'' \<and>
   stateId (newState ''S'' ''S'' (noProps\<lparr>stateName_p := Some ''''\<rparr>))
     \<noteq> concat (prefixes (newState ''S'' ''S'' (noProps\<lparr>stateName_p := Some ''''\<rparr>))) @ ''''"
  by (simp add: stateId_def addPrefix_def newState_def noProps_def)

text \<open>
  C5, amended. After \<open>addPrefix a\<close> and then \<open>addPrefix b\<close> the state id is \<open>b\<close>, then \<open>a\<close>,
  then the state id as it was: the later prefix comes first. The state id is the
  concatenation of the prefix list followed by \<open>stateName\<close> if that is set and not empty,
  else by the construct id; \<open>addPrefix\<close> puts a non-empty prefix at the front of the list and
  does nothing for the empty string.
\<close>

theorem later_prefix_comes_first:
  "stateId (addPrefix b (addPrefix a st)) = b @ a @ stateId st \<and>
   stateId st = concat (prefixes st) @
      (case stateName st of None \<Rightarrow> node_id st | Some n \<Rightarrow> if n \<noteq> [] then n else node_id st) \<and>
   prefixes (addPrefix x st) = (if x = [] then prefixes st else x # prefixes st) \<and>
   addPrefix [] st = st"
  by (simp add: stateId_def addPrefix_def split: option.splits)

section \<open>Binding a state that is already bound\<close>

text \<open>
  C2. For a state already bound to graph \<open>g\<close>, \<open>bindToGraph g\<close> returns without an error and
  leaves the whole store (the state and every graph) as it was; \<open>bindToGraph g'\<close> for another
  graph \<open>g'\<close> throws an error carrying the state id and both graphs, and again leaves the
  store, hence the state's \<open>containingGraph\<close>, as it was.
\<close>

theorem bindToGraph_when_bound:
  assumes "s < length (states \<sigma>)" and "containingGraph (states \<sigma> ! s) = Some g"
  shows "bindToGraph s g \<sigma> = (None, \<sigma>) \<and>
         (g' \<noteq> g \<longrightarrow>
            bindToGraph s g' \<sigma> = (Some (StateInOtherGraph (stateId (states \<sigma> ! s)) g' g), \<sigma>))"
  using assms by (simp add: bindToGraph.simps[of s g \<sigma>] bindToGraph.simps[of s g' \<sigma>])

theorem bindToGraph_when_bound_witness:
  "bindToGraph 0 1 boundStore = (None, boundStore) \<and>
   bindToGraph 0 2 boundStore = (Some (StateInOtherGraph ''A'' 2 1), boundStore) \<and>
   containingGraph (states (snd (bindToGraph 0 2 boundStore)) ! 0) = Some 1"
  using bindToGraph_when_bound [of 0 boundStore 1 2]
  by (simp add: boundStore_def newState_def noProps_def stateId_def)

section \<open>Declaring retry rules and catch handlers\<close>

lemma wildcard_with_other_length:
  assumes "Errors_ALL \<in> set xs" "m \<in> set xs" "m \<noteq> Errors_ALL"
  shows "1 < length xs"
proof (rule ccontr)
  assume "\<not> 1 < length xs"
  then have "length xs \<le> 1" by simp
  then have "xs = [] \<or> (\<exists>x. xs = [x])"
    by (cases xs) (auto simp: length_Suc_conv)
  with assms show False by auto
qed

lemma validateErrors_not_alone:
  "Errors_ALL \<in> set xs \<Longrightarrow> 1 < length xs \<Longrightarrow> validateErrors (Some xs) = Some AllMustAppearAlone"
  by (simp add: validateErrors_def)

lemma addRetry_not_alone:
  "Errors_ALL \<in> set xs \<Longrightarrow> 1 < length xs \<Longrightarrow> addRetry (rp\<lparr>errors := Some xs\<rparr>) st = Inl AllMustAppearAlone"
  by (simp add: addRetry_def validateErrors_not_alone)

lemma addRetryAt_not_alone:
  "Errors_ALL \<in> set xs \<Longrightarrow> 1 < length xs \<Longrightarrow> s < length (states \<sigma>) \<Longrightarrow>
   addRetryAt s (rp\<lparr>errors := Some xs\<rparr>) \<sigma> = (Some AllMustAppearAlone, \<sigma>)"
  by (simp add: addRetryAt_def addRetry_not_alone)

lemma addCatch_not_alone:
  "Errors_ALL \<in> set xs \<Longrightarrow> 1 < length xs \<Longrightarrow> s < length (states \<sigma>) \<Longrightarrow>
   handler < length (states \<sigma>) \<Longrightarrow>
   addCatch s handler (cp\<lparr>errors_c := Some xs\<rparr>) \<sigma> = (Some AllMustAppearAlone, \<sigma>)"
  by (simp add: addCatch_def validateErrors_not_alone)

lemma addRetry_default:
  "errors rp = None \<Longrightarrow>
   addRetry rp st = Inr (st\<lparr>retries := retries st @ [rp\<lparr>errors := Some [Errors_ALL]\<rparr>]\<rparr>)"
  by (simp add: addRetry_def validateErrors_def)

lemma addCatch_default:
  assumes "errors_c cp = None" "s < length (states \<sigma>)" "handler < length (states \<sigma>)"
  shows "catches (states (snd (addCatch s handler cp \<sigma>)) ! s) =
         catches (states \<sigma> ! s) @ [\<lparr>next_c = handler, props = cp\<lparr>errors_c := Some [Errors_ALL]\<rparr>\<rparr>]"
proof -
  define c where "c = \<lparr>next_c = handler,
             props = \<lparr>errors_c = Some [Errors_ALL], resultPath_c = resultPath_c cp,
                      outputs_c = outputs_c cp, assign_c = assign_c cp\<rparr>\<rparr>"
  define \<sigma>1 where "\<sigma>1 = addIncoming handler s (modState s (\<lambda>st. st\<lparr>catches := catches st @ [c]\<rparr>) \<sigma>)"
  have len: "s < length (states \<sigma>1)"
    using assms by (simp add: \<sigma>1_def addIncoming_def modState_def)
  have pushed: "catches (states \<sigma>1 ! s) = catches (states \<sigma> ! s) @ [c]"
    using assms by (cases "handler = s") (simp_all add: \<sigma>1_def addIncoming_def modState_def)
  have call: "addCatch s handler cp \<sigma> = bindIfBound s handler \<sigma>1"
    using assms unfolding \<sigma>1_def c_def by (simp add: addCatch_def validateErrors_def)
  have ceq: "c = \<lparr>next_c = handler, props = cp\<lparr>errors_c := Some [Errors_ALL]\<rparr>\<rparr>"
    by (simp add: c_def)
  have "catches (states (snd (addCatch s handler cp \<sigma>)) ! s) = catches (states \<sigma>1 ! s)"
    unfolding call by (rule bindIfBound_catches[OF len])
  then show ?thesis
    unfolding pushed ceq .
qed

text \<open>
  C7. When the error list of a retry rule or catch handler contains \<open>Errors.ALL\<close> and has
  more than one element (in particular when it contains another matcher), the declaration
  fails with the validation error and the receiver and the store are as before, so no rule
  was added. When the error list is omitted, the rule that is stored has the error list
  \<open>[Errors.ALL]\<close>.
\<close>

theorem wildcard_must_appear_alone:
  "(Errors_ALL \<in> set xs \<and> 1 < length xs \<longrightarrow>
      validateErrors (Some xs) = Some AllMustAppearAlone \<and>
      addRetry (rp\<lparr>errors := Some xs\<rparr>) st = Inl AllMustAppearAlone \<and>
      (s < length (states \<sigma>) \<longrightarrow>
         addRetryAt s (rp\<lparr>errors := Some xs\<rparr>) \<sigma> = (Some AllMustAppearAlone, \<sigma>)) \<and>
      (s < length (states \<sigma>) \<and> handler < length (states \<sigma>) \<longrightarrow>
         addCatch s handler (cp\<lparr>errors_c := Some xs\<rparr>) \<sigma> = (Some AllMustAppearAlone, \<sigma>))) \<and>
   (Errors_ALL \<in> set xs \<and> m \<in> set xs \<and> m \<noteq> Errors_ALL \<longrightarrow>
      validateErrors (Some xs) = Some AllMustAppearAlone) \<and>
   (errors rp' = None \<longrightarrow>
      addRetry rp' st = Inr (st\<lparr>retries := retries st @ [rp'\<lparr>errors := Some [Errors_ALL]\<rparr>]\<rparr>)) \<and>
   (errors_c cp' = None \<and> s < length (states \<sigma>) \<and> handler < length (states \<sigma>) \<longrightarrow>
      catches (states (snd (addCatch s handler cp' \<sigma>)) ! s) =
        catches (states \<sigma> ! s) @ [\<lparr>next_c = handler, props = cp'\<lparr>errors_c := Some [Errors_ALL]\<rparr>\<rparr>])"
proof (intro conjI impI; (elim conjE)?)
  assume "Errors_ALL \<in> set xs" "1 < length xs"
  then show "validateErrors (Some xs) = Some AllMustAppearAlone"
    by (rule validateErrors_not_alone)
next
  assume "Errors_ALL \<in> set xs" "1 < length xs"
  then show "addRetry (rp\<lparr>errors := Some xs\<rparr>) st = Inl AllMustAppearAlone"
    by (rule addRetry_not_alone)
next
  assume "Errors_ALL \<in> set xs" "1 < length xs" "s < length (states \<sigma>)"
  then show "addRetryAt s (rp\<lparr>errors := Some xs\<rparr>) \<sigma> = (Some AllMustAppearAlone, \<sigma>)"
    by (rule addRetryAt_not_alone)
next
  assume "Errors_ALL \<in> set xs" "1 < length xs" "s < length (states \<sigma>)" "handler < length (states \<sigma>)"
  then show "addCatch s handler (cp\<lparr>errors_c := Some xs\<rparr>) \<sigma> = (Some AllMustAppearAlone, \<sigma>)"
    by (rule addCatch_not_alone)
next
  assume a: "Errors_ALL \<in> set xs" "m \<in> set xs" "m \<noteq> Errors_ALL"
  show "validateErrors (Some xs) = Some AllMustAppearAlone"
    using a(1) wildcard_with_other_length[OF a] by (rule validateErrors_not_alone)
next
  assume "errors rp' = None"
  then show "addRetry rp' st = Inr (st\<lparr>retries := retries st @ [rp'\<lparr>errors := Some [Errors_ALL]\<rparr>]\<rparr>)"
    by (rule addRetry_default)
next
  assume "errors_c cp' = None" "s < length (states \<sigma>)" "handler < length (states \<sigma>)"
  then show "catches (states (snd (addCatch s handler cp' \<sigma>)) ! s) =
        catches (states \<sigma> ! s) @ [\<lparr>next_c = handler, props = cp'\<lparr>errors_c := Some [Errors_ALL]\<rparr>\<rparr>]"
    by (rule addCatch_default)
qed

theorem wildcard_must_appear_alone_witness:
  "addRetry (emptyRetryProps\<lparr>errors := Some [Errors_ALL, ''States.Timeout'']\<rparr>) (newState ''a'' ''Stack/a'' noProps)
     = Inl AllMustAppearAlone \<and>
   addRetryAt 0 (emptyRetryProps\<lparr>errors := Some [Errors_ALL, ''States.Timeout'']\<rparr>) twoFresh
     = (Some AllMustAppearAlone, twoFresh) \<and>
   addCatch 0 1 (emptyCatchProps\<lparr>errors_c := Some [Errors_ALL, ''States.Timeout'']\<rparr>) twoFresh
     = (Some AllMustAppearAlone, twoFresh) \<and>
   addRetry emptyRetryProps (newState ''a'' ''Stack/a'' noProps)
     = Inr ((newState ''a'' ''Stack/a'' noProps)\<lparr>retries := [emptyRetryProps\<lparr>errors := Some [Errors_ALL]\<rparr>]\<rparr>) \<and>
   catches (states (snd (addCatch 0 1 emptyCatchProps twoFresh)) ! 0)
     = [\<lparr>next_c = 1, props = emptyCatchProps\<lparr>errors_c := Some [Errors_ALL]\<rparr>\<rparr>]"
  using wildcard_must_appear_alone[of "[Errors_ALL, ''States.Timeout'']" emptyRetryProps
          "newState ''a'' ''Stack/a'' noProps" 0 twoFresh 1 emptyCatchProps "''States.Timeout''"
          emptyRetryProps emptyCatchProps]
  by (simp add: twoFresh_def Errors_ALL_def emptyRetryProps_def emptyCatchProps_def newState_def)

section \<open>Rendering the retry and catch lists\<close>

text \<open>
  C9. \<open>renderList\<close> returns \<open>undefined\<close> for an empty list, so a state without retries renders
  no \<open>Retry\<close> field and a state without catches renders no \<open>Catch\<close> field.
\<close>

theorem empty_lists_render_absent:
  "fst (renderList [] mapFn sortFn) = Inr None \<and>
   (retries st = [] \<and> fst (renderRetryCatch isUnresolved renderObject h topQL st) = Inr r \<longrightarrow>
      Retry r = None) \<and>
   (catches st = [] \<and> fst (renderRetryCatch isUnresolved renderObject h topQL st) = Inr r \<longrightarrow>
      Catch r = None) \<and>
   (retries st = [] \<and> catches st = [] \<longrightarrow>
      renderRetryCatch isUnresolved renderObject h topQL st = (Inr \<lparr>Retry = None, Catch = None\<rparr>, st))"
proof -
  have a: "renderList [] mapFn sortFn = (Inr None, [])" for mapFn :: "'c \<Rightarrow> error + 'd" and sortFn
    by (simp add: renderList_def)
  have b: "Retry r = None"
    if "retries st = []" "fst (renderRetryCatch isUnresolved renderObject h topQL st) = Inr r"
    using that
    by (simp add: renderRetryCatch_def a Let_def split: prod.splits sum.splits) auto
  have c: "Catch r = None"
    if "catches st = []" "fst (renderRetryCatch isUnresolved renderObject h topQL st) = Inr r"
    using that
    by (simp add: renderRetryCatch_def a Let_def split: prod.splits sum.splits) auto
  have d: "renderRetryCatch isUnresolved renderObject h topQL st = (Inr \<lparr>Retry = None, Catch = None\<rparr>, st)"
    if "retries st = []" "catches st = []"
    using that by (simp add: renderRetryCatch_def a Let_def)
  show ?thesis
    using b c d by (simp add: renderList_def)
qed

theorem empty_lists_render_absent_witness:
  "renderRetryCatch (\<lambda>_. False) (\<lambda>x. x) taskHeap None (taskHeap ! 1) =
     (Inr \<lparr>Retry = None, Catch = None\<rparr>, taskHeap ! 1) \<and>
   retries (taskHeap ! 1) = [] \<and> catches (taskHeap ! 1) = []"
proof -
  have e: "retries (taskHeap ! 1) = [] \<and> catches (taskHeap ! 1) = []"
    by (simp add: taskHeap_def newState_def)
  have d: "fst (renderRetryCatch (\<lambda>_. False) (\<lambda>x. x) taskHeap None (taskHeap ! 1)) = Inr \<lparr>Retry = None, Catch = None\<rparr>"
    using e by (simp add: renderRetryCatch_def renderList_def)
  from empty_lists_render_absent[of "\<lambda>x. Inr x" "None :: (nat \<Rightarrow> nat \<Rightarrow> int) option" "taskHeap ! 1" "\<lambda>_. False" "\<lambda>x. x"
          taskHeap None "\<lparr>Retry = None, Catch = None\<rparr>"] e d
  show ?thesis by simp
qed

lemma insert_by_wild:
  "(\<And>y. cmp x y \<ge> 0) \<Longrightarrow> insert_by cmp x ys = ys @ [x]"
  by (induction ys) (auto simp: not_less[symmetric])

lemma insert_by_split:
  assumes "\<And>y. y \<in> set ns \<Longrightarrow> cmp x y \<ge> 0" "\<And>y. y \<in> set ws \<Longrightarrow> cmp x y < 0"
  shows "insert_by cmp x (ns @ ws) = ns @ x # ws"
  using assms
proof (induction ns)
  case Nil
  then show ?case by (cases ws) auto
next
  case (Cons n ns)
  then have "\<not> cmp x n < 0" by (simp add: not_less)
  with Cons show ?case by simp
qed

lemma compareErrors_wild: "includesALL a \<Longrightarrow> compareErrors a b = 1"
  by (simp add: compareErrors_def)

lemma compareErrors_other:
  "\<not> includesALL a \<Longrightarrow> compareErrors a b = (if includesALL b then - 1 else 0)"
  by (simp add: compareErrors_def)

lemma foldl_insert_compareErrors:
  assumes "\<forall>y \<in> set ns. \<not> includesALL (f y)" "\<forall>y \<in> set ws. includesALL (f y)"
  shows "foldl (\<lambda>acc x. insert_by (\<lambda>a b. compareErrors (f a) (f b)) x acc) (ns @ ws) xs =
         (ns @ filter (\<lambda>x. \<not> includesALL (f x)) xs) @ (ws @ filter (\<lambda>x. includesALL (f x)) xs)"
  using assms
proof (induction xs arbitrary: ns ws)
  case Nil
  then show ?case by simp
next
  case (Cons x xs)
  let ?cmp = "\<lambda>a b. compareErrors (f a) (f b)"
  show ?case
  proof (cases "includesALL (f x)")
    case True
    then have "insert_by ?cmp x (ns @ ws) = ns @ (ws @ [x])"
      using insert_by_wild[of ?cmp x "ns @ ws"] by (simp add: compareErrors_wild)
    moreover have "\<forall>y \<in> set (ws @ [x]). includesALL (f y)"
      using Cons.prems(2) True by simp
    ultimately show ?thesis
      using Cons.IH[of ns "ws @ [x]"] Cons.prems(1) True by simp
  next
    case False
    have "insert_by ?cmp x (ns @ ws) = ns @ x # ws"
      using Cons.prems False by (intro insert_by_split) (simp_all add: compareErrors_other)
    then have "insert_by ?cmp x (ns @ ws) = (ns @ [x]) @ ws" by simp
    moreover have "\<forall>y \<in> set (ns @ [x]). \<not> includesALL (f y)"
      using Cons.prems(1) False by simp
    ultimately show ?thesis
      using Cons.IH[of "ns @ [x]" ws] Cons.prems(2) False by simp
  qed
qed

lemma sort_by_compareErrors:
  "sort_by (\<lambda>a b. compareErrors (f a) (f b)) xs =
     filter (\<lambda>x. \<not> includesALL (f x)) xs @ filter (\<lambda>x. includesALL (f x)) xs"
  using foldl_insert_compareErrors[of "[]" f "[]" xs] by (simp add: sort_by_def)

lemma map_throwing_total: "map_throwing (\<lambda>x. Inr (g x)) xs = Inr (map g xs)"
  by (induction xs) simp_all

lemma map_throwing_Inr:
  "map_throwing g xs = Inr ys \<Longrightarrow> list_all2 (\<lambda>x y. g x = Inr y) xs ys"
proof (induction xs arbitrary: ys)
  case Nil
  then show ?case by simp
next
  case (Cons x xs)
  then show ?case by (auto split: sum.splits)
qed

lemma renderList_compareErrors:
  "renderList xs g (Some (\<lambda>a b. compareErrors (f a) (f b))) =
     (if xs = [] then (Inr None, xs)
      else (case map_throwing g (wildLast f xs) of Inl e \<Rightarrow> Inl e | Inr ys \<Rightarrow> Inr (Some ys), wildLast f xs))"
  by (simp add: renderList_def sort_by_compareErrors wildLast_def Let_def)

lemma wildLast_last:
  assumes "\<exists>x \<in> set xs. includesALL (f x)"
  shows "wildLast f xs \<noteq> [] \<and> includesALL (f (last (wildLast f xs)))"
proof -
  let ?ws = "filter (\<lambda>x. includesALL (f x)) xs"
  have ne: "?ws \<noteq> []" using assms by (simp add: filter_empty_conv)
  then have "last (wildLast f xs) = last ?ws" by (simp add: wildLast_def)
  moreover have "last ?ws \<in> set ?ws" using ne by (rule last_in_set)
  ultimately show ?thesis using ne by (simp add: wildLast_def)
qed

lemma list_all2_last:
  "list_all2 P xs ys \<Longrightarrow> xs \<noteq> [] \<Longrightarrow> P (last xs) (last ys)"
proof (induction xs ys rule: list_all2_induct)
  case Nil
  then show ?case by simp
next
  case (Cons x xs y ys)
  then show ?case by (cases xs) (auto simp: list_all2_Nil)
qed

lemma renderCatch_errors:
  "renderCatch isUnresolved renderObject h c ql = Inr j \<Longrightarrow> ErrorEquals_c j = errors_c (props c)"
  by (auto simp: renderCatch_def split: sum.splits)

lemma taskHeap_renders:
  "renderRetryCatch (\<lambda>_. False) (\<lambda>x. x) taskHeap None (taskHeap ! 0) =
     (Inr taskRendered, (taskHeap ! 0)\<lparr>retries := [retryTimeout, retryAll], catches := [catchFailed, catchAll]\<rparr>)"
  by (simp add: renderRetryCatch_def renderList_def sort_by_def compareErrors_def includesALL_def
        taskHeap_def taskRendered_def retryAll_def retryTimeout_def catchAll_def catchFailed_def
        emptyRetryProps_def emptyCatchProps_def newState_def noProps_def Errors_ALL_def
        getActualQueryLanguage_def renderCatch_def renderJsonPath_def startsWithDollar_def
        stateIdOf_def stateId_def renderRetry_def Let_def)

text \<open>
  C4. Whenever \<open>renderRetryCatch\<close> renders, the \<open>Retry\<close> list is the rendering of the rules
  without \<open>Errors.ALL\<close> in their declaration order followed by the rules with it, and so is
  the \<open>Catch\<close> list; if some rule carries \<open>Errors.ALL\<close>, the last rendered entry does. The
  sort is in place: the receiver's lists are left in that order.
\<close>

theorem wildcard_rules_render_last:
  assumes "fst (renderRetryCatch isUnresolved renderObject h topQL st) = Inr r"
  shows "Retry r = (if retries st = [] then None
                    else Some (map renderRetry (wildLast errors (retries st)))) \<and>
         (catches st = [] \<longrightarrow> Catch r = None) \<and>
         (catches st \<noteq> [] \<longrightarrow>
            (\<exists>cs. Catch r = Some cs \<and>
               list_all2 (\<lambda>c j. renderCatch isUnresolved renderObject h c
                                   (getActualQueryLanguage topQL (queryLanguage st)) = Inr j)
                 (wildLast (\<lambda>c. errors_c (props c)) (catches st)) cs)) \<and>
         ((\<exists>x \<in> set (retries st). includesALL (errors x)) \<longrightarrow>
            (\<exists>rs. Retry r = Some rs \<and> rs \<noteq> [] \<and> includesALL (ErrorEquals (last rs)))) \<and>
         ((\<exists>c \<in> set (catches st). includesALL (errors_c (props c))) \<longrightarrow>
            (\<exists>cs. Catch r = Some cs \<and> cs \<noteq> [] \<and> includesALL (ErrorEquals_c (last cs)))) \<and>
         snd (renderRetryCatch isUnresolved renderObject h topQL st) =
           st\<lparr>retries := wildLast errors (retries st),
              catches := wildLast (\<lambda>c. errors_c (props c)) (catches st)\<rparr>"
proof -
  let ?ql = "getActualQueryLanguage topQL (queryLanguage st)"
  let ?g = "\<lambda>x. renderCatch isUnresolved renderObject h x ?ql"
  let ?rs = "wildLast errors (retries st)"
  let ?cs = "wildLast (\<lambda>c. errors_c (props c)) (catches st)"
  have R: "renderList (retries st) (\<lambda>x. Inr (renderRetry x)) (Some (\<lambda>a b. compareErrors (errors a) (errors b)))
        = (Inr (if retries st = [] then None else Some (map renderRetry ?rs)), ?rs)"
    by (simp add: renderList_compareErrors map_throwing_total wildLast_def)
  have C: "renderList (catches st) ?g (Some (\<lambda>a b. compareErrors (errors_c (props a)) (errors_c (props b))))
        = (if catches st = [] then Inr None
           else (case map_throwing ?g ?cs of Inl e \<Rightarrow> Inl e | Inr ys \<Rightarrow> Inr (Some ys)), ?cs)"
    by (simp add: renderList_compareErrors wildLast_def)
  have unfolded: "renderRetryCatch isUnresolved renderObject h topQL st =
      (case (if catches st = [] then Inr None
             else (case map_throwing ?g ?cs of Inl e \<Rightarrow> Inl e | Inr ys \<Rightarrow> Inr (Some ys))) of
         Inl e \<Rightarrow> Inl e
       | Inr catchField \<Rightarrow>
           Inr \<lparr>Retry = (if retries st = [] then None else Some (map renderRetry ?rs)), Catch = catchField\<rparr>,
       st\<lparr>retries := ?rs, catches := ?cs\<rparr>)"
    unfolding renderRetryCatch_def Let_def R
    by (simp add: C split: sum.splits)
  have retry: "Retry r = (if retries st = [] then None else Some (map renderRetry ?rs))"
    using assms unfolded by (auto split: sum.splits if_splits)
  have catch_nil: "Catch r = None" if "catches st = []"
    using assms unfolded that by auto
  have catch_some: "\<exists>cs. Catch r = Some cs \<and> list_all2 (\<lambda>c j. ?g c = Inr j) ?cs cs" if "catches st \<noteq> []"
  proof (cases "map_throwing ?g ?cs")
    case (Inl e)
    with assms unfolded that show ?thesis by simp
  next
    case (Inr ys)
    with assms unfolded that map_throwing_Inr[OF Inr] show ?thesis by auto
  qed
  have retry_last: "\<exists>rs. Retry r = Some rs \<and> rs \<noteq> [] \<and> includesALL (ErrorEquals (last rs))"
    if w: "\<exists>x \<in> set (retries st). includesALL (errors x)"
  proof -
    from w have ne: "retries st \<noteq> []" by auto
    from wildLast_last[OF w] have l: "?rs \<noteq> []" "includesALL (errors (last ?rs))" by simp_all
    have "ErrorEquals (last (map renderRetry ?rs)) = errors (last ?rs)"
      using l(1) by (simp add: last_map renderRetry_def)
    with retry ne l show ?thesis by simp
  qed
  have catch_last: "\<exists>cs. Catch r = Some cs \<and> cs \<noteq> [] \<and> includesALL (ErrorEquals_c (last cs))"
    if w: "\<exists>c \<in> set (catches st). includesALL (errors_c (props c))"
  proof -
    from w have ne: "catches st \<noteq> []" by auto
    from wildLast_last[OF w] have l: "?cs \<noteq> []" "includesALL (errors_c (props (last ?cs)))" by simp_all
    from catch_some[OF ne] obtain cs where cs: "Catch r = Some cs" "list_all2 (\<lambda>c j. ?g c = Inr j) ?cs cs"
      by blast
    have "cs \<noteq> []" using cs(2) l(1) by (auto simp: list_all2_Nil2)
    moreover have "?g (last ?cs) = Inr (last cs)"
      using list_all2_last[OF cs(2) l(1)] .
    then have "ErrorEquals_c (last cs) = errors_c (props (last ?cs))"
      by (rule renderCatch_errors)
    ultimately show ?thesis using cs(1) l(2) by simp
  qed
  have left: "snd (renderRetryCatch isUnresolved renderObject h topQL st) = st\<lparr>retries := ?rs, catches := ?cs\<rparr>"
    using unfolded by simp
  show ?thesis
    using retry catch_nil catch_some retry_last catch_last left
    by (intro conjI impI) blast+
qed

theorem wildcard_rules_render_last_witness:
  "fst (renderRetryCatch (\<lambda>_. False) (\<lambda>x. x) taskHeap None (taskHeap ! 0)) = Inr taskRendered \<and>
   retries (taskHeap ! 0) = [retryAll, retryTimeout] \<and>
   Retry taskRendered = Some [renderRetry retryTimeout, renderRetry retryAll] \<and>
   map_option (map ErrorEquals_c) (Catch taskRendered) = Some [Some [''States.TaskFailed''], Some [Errors_ALL]]"
proof -
  have h: "fst (renderRetryCatch (\<lambda>_. False) (\<lambda>x. x) taskHeap None (taskHeap ! 0)) = Inr taskRendered"
    by (simp add: taskHeap_renders)
  from wildcard_rules_render_last[OF h] h show ?thesis
    by (simp add: taskRendered_def taskHeap_def)
qed

section \<open>Correctness of the reachability traversals\<close>

lemma rtrancl_Image_absorb:
  assumes "B \<subseteq> r\<^sup>* `` A"
  shows "r\<^sup>* `` (A \<union> B) = r\<^sup>* `` A"
proof
  show "r\<^sup>* `` (A \<union> B) \<subseteq> r\<^sup>* `` A"
  proof
    fix t assume "t \<in> r\<^sup>* `` (A \<union> B)"
    then obtain u where u: "u \<in> A \<union> B" "(u, t) \<in> r\<^sup>*" by auto
    show "t \<in> r\<^sup>* `` A"
    proof (cases "u \<in> A")
      case True
      with u show ?thesis by auto
    next
      case False
      with u assms obtain a where "a \<in> A" "(a, u) \<in> r\<^sup>*" by auto
      with u(2) have "(a, t) \<in> r\<^sup>*" by (meson rtrancl_trans)
      with \<open>a \<in> A\<close> show ?thesis by auto
    qed
  qed
  show "r\<^sup>* `` A \<subseteq> r\<^sup>* `` (A \<union> B)" by auto
qed

lemma edges_Image:
  "i < length h \<Longrightarrow> edges h options `` {i} = set (outgoingTransitions options (h ! i))"
  by (auto simp: edges_def)

lemma edges_step:
  "i < length h \<Longrightarrow> t \<in> set (outgoingTransitions options (h ! i)) \<Longrightarrow> (i, t) \<in> edges h options"
  by (simp add: edges_def)

lemma set_set_add [simp]: "set (set_add x xs) = insert x (set xs)"
  by (auto simp: set_add_def)

lemma distinct_set_add [simp]: "distinct (set_add x xs) = distinct xs"
  by (auto simp: set_add_def)

lemma visited_closed:
  assumes "\<forall>v \<in> V. v < length h \<and> set (outgoingTransitions options (h ! v)) \<subseteq> V"
  shows "(edges h options)\<^sup>* `` V = V"
proof (rule Image_closed_trancl)
  show "edges h options `` V \<subseteq> V"
    using assms by (auto simp: edges_def)
qed

lemma reachLoop_correct:
  assumes "closedHeap h options"
    and "\<forall>q \<in> set queue. q < length h"
    and "\<forall>v \<in> set visited. v < length h \<and>
           set (outgoingTransitions options (h ! v)) \<subseteq> set visited \<union> set queue"
    and "set ret = set visited" and "distinct ret"
  shows "\<exists>xs. reachLoop h options visited ret queue = Inr xs \<and> distinct xs \<and>
           set xs = (edges h options)\<^sup>* `` (set visited \<union> set queue)"
  using assms
proof (induction h options visited ret queue rule: reachLoop.induct)
  case (1 h options visited ret)
  then have "(edges h options)\<^sup>* `` set visited = set visited"
    by (intro visited_closed) simp
  with 1 show ?case by simp
next
  case (2 h options visited ret state queue)
  show ?case
  proof (cases "state \<in> set visited")
    case True
    then have eq: "set visited \<union> set (state # queue) = set visited \<union> set queue" by auto
    have "\<exists>xs. reachLoop h options visited ret queue = Inr xs \<and> distinct xs \<and>
           set xs = (edges h options)\<^sup>* `` (set visited \<union> set queue)"
    proof (rule "2.IH"(1)[OF True "2.prems"(1)])
      show "\<forall>q \<in> set queue. q < length h" using "2.prems"(2) by simp
      show "\<forall>v \<in> set visited. v < length h \<and>
           set (outgoingTransitions options (h ! v)) \<subseteq> set visited \<union> set queue"
        using "2.prems"(3) True by auto
      show "set ret = set visited" by (rule "2.prems"(4))
      show "distinct ret" by (rule "2.prems"(5))
    qed
    with True eq show ?thesis by simp
  next
    case False
    have len: "state < length h" using "2.prems"(2) by simp
    let ?out = "outgoingTransitions options (h ! state)"
    have out_in: "\<forall>t \<in> set ?out. t < length h"
      using "2.prems"(1) len by (auto simp: closedHeap_def)
    have "\<exists>xs. reachLoop h options (set_add state visited) (set_add state ret) (queue @ ?out) = Inr xs \<and>
           distinct xs \<and>
           set xs = (edges h options)\<^sup>* `` (set (set_add state visited) \<union> set (queue @ ?out))"
    proof (rule "2.IH"(2)[OF False _ "2.prems"(1)])
      show "\<not> \<not> state < length h" using len by simp
      show "\<forall>q \<in> set (queue @ ?out). q < length h"
        using "2.prems"(2) out_in by auto
      show "\<forall>v \<in> set (set_add state visited). v < length h \<and>
           set (outgoingTransitions options (h ! v)) \<subseteq> set (set_add state visited) \<union> set (queue @ ?out)"
        using "2.prems"(3) len by auto
      show "set (set_add state ret) = set (set_add state visited)"
        using "2.prems"(4) by simp
      show "distinct (set_add state ret)" using "2.prems"(5) by simp
    qed
    then obtain xs where xs: "reachLoop h options (set_add state visited) (set_add state ret) (queue @ ?out) = Inr xs"
      "distinct xs"
      "set xs = (edges h options)\<^sup>* `` (set (set_add state visited) \<union> set (queue @ ?out))"
      by blast
    have "set ?out \<subseteq> (edges h options)\<^sup>* `` (set visited \<union> set (state # queue))"
    proof
      fix t assume "t \<in> set ?out"
      then have "(state, t) \<in> (edges h options)\<^sup>*"
        using edges_step[OF len] by blast
      then show "t \<in> (edges h options)\<^sup>* `` (set visited \<union> set (state # queue))" by auto
    qed
    from rtrancl_Image_absorb[OF this]
    have "(edges h options)\<^sup>* `` (set (set_add state visited) \<union> set (queue @ ?out)) =
          (edges h options)\<^sup>* `` (set visited \<union> set (state # queue))"
      by (simp add: Un_ac insert_commute)
    with xs False len show ?thesis by simp
  qed
qed

lemma endLoop_correct:
  assumes "closedHeap h options"
    and "\<forall>q \<in> set queue. q < length h"
    and "\<forall>v \<in> set visited. v < length h \<and>
           set (outgoingTransitions options (h ! v)) \<subseteq> set visited \<union> set queue"
    and "set ret = {v \<in> set visited. outgoingTransitions options (h ! v) = []}" and "distinct ret"
  shows "\<exists>ys. endLoop h options visited ret queue = Inr ys \<and> distinct ys \<and>
           set ys = {t \<in> (edges h options)\<^sup>* `` (set visited \<union> set queue).
                       outgoingTransitions options (h ! t) = []}"
  using assms
proof (induction h options visited ret queue rule: endLoop.induct)
  case (1 h options visited ret)
  then have "(edges h options)\<^sup>* `` set visited = set visited"
    by (intro visited_closed) simp
  with 1 show ?case by simp
next
  case (2 h options visited ret state queue)
  let ?E = "edges h options"
  let ?out = "outgoingTransitions options (h ! state)"
  show ?case
  proof (cases "state \<in> set visited")
    case True
    then have eq: "set visited \<union> set (state # queue) = set visited \<union> set queue" by auto
    have "\<exists>ys. endLoop h options visited ret queue = Inr ys \<and> distinct ys \<and>
           set ys = {t \<in> ?E\<^sup>* `` (set visited \<union> set queue). outgoingTransitions options (h ! t) = []}"
    proof (rule "2.IH"(1)[OF True "2.prems"(1)])
      show "\<forall>q \<in> set queue. q < length h" using "2.prems"(2) by simp
      show "\<forall>v \<in> set visited. v < length h \<and>
           set (outgoingTransitions options (h ! v)) \<subseteq> set visited \<union> set queue"
        using "2.prems"(3) True by auto
      show "set ret = {v \<in> set visited. outgoingTransitions options (h ! v) = []}"
        by (rule "2.prems"(4))
      show "distinct ret" by (rule "2.prems"(5))
    qed
    with True eq show ?thesis by simp
  next
    case False
    have len: "state < length h" using "2.prems"(2) by simp
    have out_in: "\<forall>t \<in> set ?out. t < length h"
      using "2.prems"(1) len by (auto simp: closedHeap_def)
    have absorb: "?E\<^sup>* `` (insert state (set visited) \<union> (set queue \<union> set ?out)) =
          ?E\<^sup>* `` (set visited \<union> set (state # queue))"
    proof -
      have "set ?out \<subseteq> ?E\<^sup>* `` (set visited \<union> set (state # queue))"
      proof
        fix t assume "t \<in> set ?out"
        then have "(state, t) \<in> ?E\<^sup>*"
          using edges_step[OF len] by blast
        then show "t \<in> ?E\<^sup>* `` (set visited \<union> set (state # queue))" by auto
      qed
      from rtrancl_Image_absorb[OF this] show ?thesis
        by (simp add: Un_ac insert_commute)
    qed
    show ?thesis
    proof (cases "length ?out > 0")
      case True
      have "\<exists>ys. endLoop h options (set_add state visited) ret (queue @ ?out) = Inr ys \<and> distinct ys \<and>
             set ys = {t \<in> ?E\<^sup>* `` (set (set_add state visited) \<union> set (queue @ ?out)).
                        outgoingTransitions options (h ! t) = []}"
      proof (rule "2.IH"(2)[OF False _ True "2.prems"(1)])
        show "\<not> \<not> state < length h" using len by simp
        show "\<forall>q \<in> set (queue @ ?out). q < length h"
          using "2.prems"(2) out_in by auto
        show "\<forall>v \<in> set (set_add state visited). v < length h \<and>
             set (outgoingTransitions options (h ! v)) \<subseteq> set (set_add state visited) \<union> set (queue @ ?out)"
          using "2.prems"(3) len by auto
        show "set ret = {v \<in> set (set_add state visited). outgoingTransitions options (h ! v) = []}"
          using "2.prems"(4) True by auto
        show "distinct ret" by (rule "2.prems"(5))
      qed
      with False len True absorb show ?thesis by simp
    next
      case no_out: False
      then have out_nil: "?out = []" by simp
      have "\<exists>ys. endLoop h options (set_add state visited) (set_add state ret) queue = Inr ys \<and> distinct ys \<and>
             set ys = {t \<in> ?E\<^sup>* `` (set (set_add state visited) \<union> set queue).
                        outgoingTransitions options (h ! t) = []}"
      proof (rule "2.IH"(3)[OF False _ no_out "2.prems"(1)])
        show "\<not> \<not> state < length h" using len by simp
        show "\<forall>q \<in> set queue. q < length h"
          using "2.prems"(2) by auto
        show "\<forall>v \<in> set (set_add state visited). v < length h \<and>
             set (outgoingTransitions options (h ! v)) \<subseteq> set (set_add state visited) \<union> set queue"
          using "2.prems"(3) len out_nil by auto
        show "set (set_add state ret) = {v \<in> set (set_add state visited). outgoingTransitions options (h ! v) = []}"
          using "2.prems"(4) out_nil by auto
        show "distinct (set_add state ret)" using "2.prems"(5) by simp
      qed
      moreover have "insert state (set visited) \<union> set queue = set visited \<union> set (state # queue)"
        by auto
      ultimately show ?thesis using False len no_out by simp
    qed
  qed
qed

lemma findReachableStates_correct:
  assumes "closedHeap h options" "start < length h"
  shows "\<exists>xs. findReachableStates h start options = Inr xs \<and> distinct xs \<and>
           set xs = (edges h options)\<^sup>* `` {start}"
  using reachLoop_correct[of h options "[start]" "[]" "[]"] assms
  by (simp add: findReachableStates_def)

lemma findReachableEndStates_correct:
  assumes "closedHeap h options" "start < length h"
  shows "\<exists>ys. findReachableEndStates h start options = Inr ys \<and> distinct ys \<and>
           set ys = {t \<in> (edges h options)\<^sup>* `` {start}. outgoingTransitions options (h ! t) = []}"
  using endLoop_correct[of h options "[start]" "[]" "[]"] assms
  by (simp add: findReachableEndStates_def)

lemma two_state_cycle:
  assumes "a < length h" "b < length h"
    and "outgoingTransitions options (h ! a) = [b]" "outgoingTransitions options (h ! b) = [a]"
  shows "findReachableStates h a options = Inr (if a = b then [a] else [a, b])"
    and "findReachableEndStates h a options = Inr []"
  using assms
  by (auto simp: findReachableStates_def findReachableEndStates_def set_add_def)

lemma outgoing_withSubGraphs:
  "i < length h \<Longrightarrow>
   outgoingTransitions options (withSubGraphs bs it pr h ! i) = outgoingTransitions options (h ! i)"
  by (simp add: withSubGraphs_def outgoingTransitions_def)

lemma reachLoop_withSubGraphs:
  "reachLoop (withSubGraphs bs it pr h) options visited ret queue = reachLoop h options visited ret queue"
proof (induction h options visited ret queue rule: reachLoop.induct)
  case (1 h options visited ret)
  show ?case by simp
next
  case (2 h options visited ret state queue)
  have len: "length (withSubGraphs bs it pr h) = length h" by (simp add: withSubGraphs_def)
  show ?case
  proof (cases "state \<in> set visited")
    case True
    with "2.IH"(1) show ?thesis by simp
  next
    case False
    show ?thesis
    proof (cases "state < length h")
      case True
      with False "2.IH"(2) len show ?thesis by (simp add: outgoing_withSubGraphs)
    next
      case no: False
      with False len show ?thesis by simp
    qed
  qed
qed

lemma endLoop_withSubGraphs:
  "endLoop (withSubGraphs bs it pr h) options visited ret queue = endLoop h options visited ret queue"
proof (induction h options visited ret queue rule: endLoop.induct)
  case (1 h options visited ret)
  show ?case by simp
next
  case (2 h options visited ret state queue)
  have len: "length (withSubGraphs bs it pr h) = length h" by (simp add: withSubGraphs_def)
  show ?case
  proof (cases "state \<in> set visited")
    case True
    with "2.IH"(1) show ?thesis by simp
  next
    case False
    show ?thesis
    proof (cases "state < length h")
      case True
      show ?thesis
      proof (cases "outgoingTransitions options (h ! state) = []")
        case nil: True
        with False True "2.IH"(3) len show ?thesis by (simp add: outgoing_withSubGraphs)
      next
        case some: False
        with False True "2.IH"(2) len show ?thesis by (simp add: outgoing_withSubGraphs)
      qed
    next
      case no: False
      with False len show ?thesis by simp
    qed
  qed
qed

lemma edges_by_kind:
  "edges h options =
     {(i, t). i < length h \<and>
        (x_next (h ! i) = Some t \<or> defaultChoice (h ! i) = Some t \<or>
         t \<in> next_ch ` set (choices (h ! i)) \<or>
         (includeErrorHandlers options = Some True \<and> t \<in> next_c ` set (catches (h ! i))))}"
  by (auto simp: edges_def outgoingTransitions_def split: option.splits if_splits)

text \<open>
  C3. \<open>findReachableStates\<close> and \<open>findReachableEndStates\<close> are total functions: both loops
  terminate on every heap, cyclic or not. On a heap whose transitions stay inside it they
  return, without duplicates, exactly the states reachable from \<open>start\<close> along the
  transition relation, respectively those among them without outgoing transitions. On the
  two-state cycle \<open>start \<rightarrow> b \<rightarrow> start\<close> the reachable set is \<open>{start, b}\<close> and there is no end
  state. The transition relation consists of the default transition, the default choice and
  the choice targets, and of the catch targets only when \<open>includeErrorHandlers\<close> is true;
  the branches, iteration and processor of a state play no part in either result.
\<close>

theorem traversals_find_reachable:
  assumes "closedHeap h options" and "start < length h"
  shows "(\<exists>xs ys.
            findReachableStates h start options = Inr xs \<and> distinct xs \<and>
            set xs = (edges h options)\<^sup>* `` {start} \<and>
            findReachableEndStates h start options = Inr ys \<and> distinct ys \<and>
            set ys = {t \<in> (edges h options)\<^sup>* `` {start}. outgoingTransitions options (h ! t) = []}) \<and>
         (b < length h \<and> outgoingTransitions options (h ! start) = [b] \<and>
          outgoingTransitions options (h ! b) = [start] \<longrightarrow>
            (\<exists>xs. findReachableStates h start options = Inr xs \<and> set xs = {start, b}) \<and>
            findReachableEndStates h start options = Inr []) \<and>
         edges h options =
           {(i, t). i < length h \<and>
              (x_next (h ! i) = Some t \<or> defaultChoice (h ! i) = Some t \<or>
               t \<in> next_ch ` set (choices (h ! i)) \<or>
               (includeErrorHandlers options = Some True \<and> t \<in> next_c ` set (catches (h ! i))))} \<and>
         findReachableStates (withSubGraphs bs it pr h) start options = findReachableStates h start options \<and>
         findReachableEndStates (withSubGraphs bs it pr h) start options = findReachableEndStates h start options"
proof -
  have cyc: "(\<exists>xs. findReachableStates h start options = Inr xs \<and> set xs = {start, b}) \<and>
            findReachableEndStates h start options = Inr []"
    if "b < length h" "outgoingTransitions options (h ! start) = [b]"
       "outgoingTransitions options (h ! b) = [start]"
    using two_state_cycle[OF assms(2) that] by auto
  have sub: "findReachableStates (withSubGraphs bs it pr h) start options = findReachableStates h start options"
    "findReachableEndStates (withSubGraphs bs it pr h) start options = findReachableEndStates h start options"
    by (simp_all only: findReachableStates_def findReachableEndStates_def
          reachLoop_withSubGraphs endLoop_withSubGraphs)
  from findReachableStates_correct[OF assms] findReachableEndStates_correct[OF assms]
  have gen: "\<exists>xs ys.
            findReachableStates h start options = Inr xs \<and> distinct xs \<and>
            set xs = (edges h options)\<^sup>* `` {start} \<and>
            findReachableEndStates h start options = Inr ys \<and> distinct ys \<and>
            set ys = {t \<in> (edges h options)\<^sup>* `` {start}. outgoingTransitions options (h ! t) = []}"
    by blast
  show ?thesis
    using gen cyc sub edges_by_kind[of h options] by (intro conjI impI) blast+
qed

theorem traversals_find_reachable_witness:
  "closedHeap cycleHeap defaultOptions \<and>
   findReachableStates cycleHeap 0 defaultOptions = Inr [0, 1] \<and>
   findReachableEndStates cycleHeap 0 defaultOptions = Inr []"
proof -
  have c: "closedHeap cycleHeap defaultOptions"
    by (simp add: closedHeap_def cycleHeap_def newState_def noProps_def outgoingTransitions_def
          defaultOptions_def less_Suc_eq)
  have l: "0 < length cycleHeap" by (simp add: cycleHeap_def)
  from traversals_find_reachable[OF c l, of 1 "\<lambda>_. []" "\<lambda>_. None" "\<lambda>_. None"] c show ?thesis
    by (simp add: cycleHeap_def newState_def noProps_def outgoingTransitions_def defaultOptions_def
          findReachableStates_def set_add_def)
qed

section \<open>Propagation of binding along transitions\<close>

text \<open>
  For a transition declared by \<open>makeNext\<close>, \<open>addChoice\<close> or \<open>_addCatch\<close> between two unbound
  states, in a store whose references are live and whose bound states all belong to \<open>graph\<close>,
  \<open>bindToGraph graph\<close> on either end returns without an error and binds both ends.
\<close>

lemma declared_transition_binds_both_ends:
  assumes a: "a < length (states \<sigma>0)" and b: "b < length (states \<sigma>0)"
    and ua: "graphOf \<sigma>0 a = None" and ub: "graphOf \<sigma>0 b = None"
    and live: "liveRefs \<sigma>0" and only: "onlyGraph graph \<sigma>0"
    and decl: "makeNext a b \<sigma>0 = (None, \<sigma>) \<or>
               (next_ch c = b \<and> addChoice a c \<sigma>0 = (None, \<sigma>)) \<or>
               addCatch a b cp \<sigma>0 = (None, \<sigma>)"
  shows "fst (bindToGraph a graph \<sigma>) = None \<and>
         graphOf (snd (bindToGraph a graph \<sigma>)) a = Some graph \<and>
         graphOf (snd (bindToGraph a graph \<sigma>)) b = Some graph \<and>
         fst (bindToGraph b graph \<sigma>) = None \<and>
         graphOf (snd (bindToGraph b graph \<sigma>)) a = Some graph \<and>
         graphOf (snd (bindToGraph b graph \<sigma>)) b = Some graph"
proof -
  have facts: "length (states \<sigma>) = length (states \<sigma>0) \<and> graphOf \<sigma> = graphOf \<sigma>0 \<and>
         b \<in> set (outgoingTransitions allHandlers (states \<sigma> ! a)) \<and>
         a \<in> set (incomingStates (states \<sigma> ! b))"
    using decl makeNext_unbound[OF a b ua] addChoice_unbound[OF a _ ua, of c \<sigma>] addCatch_unbound[OF a b ua] b
    by blast
  then have a': "a < length (states \<sigma>)" and b': "b < length (states \<sigma>)"
    using a b by simp_all
  have "graphOf \<sigma> a = None" "graphOf \<sigma> b = None"
    using facts ua ub by simp_all
  then have ua': "containingGraph (states \<sigma> ! a) = None" and ub': "containingGraph (states \<sigma> ! b) = None"
    using a' b' by (simp_all add: graphOf_def)
  have live': "liveRefs \<sigma>"
    using decl makeNext_liveRefs[OF live a b ua] addChoice_liveRefs[OF live a _ ua, of c \<sigma>]
      addCatch_liveRefs[OF live a b ua] b
    by blast
  have only': "onlyGraph graph \<sigma>"
    using only facts by (simp add: onlyGraph_graphOf)
  have oka: "fst (bindToGraph a graph \<sigma>) = None" by (rule bind_never_throws(1)[OF live' only' a'])
  have okb: "fst (bindToGraph b graph \<sigma>) = None" by (rule bind_never_throws(1)[OF live' only' b'])
  show ?thesis
    using bind_neighbours[OF a' ua' oka, of b] bind_neighbours[OF b' ub' okb, of a]
      bind_success_binds(1)[OF oka] bind_success_binds(1)[OF okb] facts oka okb
    by auto
qed

text \<open>
  C1 does not hold for the default-choice transition. \<open>makeDefault\<close> records the target but,
  unlike \<open>makeNext\<close>, \<open>addChoice\<close> and \<open>_addCatch\<close>, never calls \<open>addIncoming\<close>: with states
  \<open>a\<close> (index 0) and \<open>b\<close> (index 1) both unbound and \<open>a.makeDefault(b)\<close> declared,
  \<open>b.bindToGraph(7)\<close> succeeds and binds \<open>b\<close> only, \<open>a\<close> stays unbound. Binding \<open>a\<close> does bind
  \<open>b\<close>, and with \<open>makeNext\<close> in place of \<open>makeDefault\<close> binding \<open>b\<close> binds \<open>a\<close> as well.
\<close>

theorem default_choice_does_not_bind_back:
  "fst (makeDefault 0 1 twoFresh) = None \<and>
   fst (bindToGraph 1 7 (snd (makeDefault 0 1 twoFresh))) = None \<and>
   boundGraphs (snd (bindToGraph 1 7 (snd (makeDefault 0 1 twoFresh)))) = [None, Some 7] \<and>
   boundGraphs (snd (bindToGraph 0 7 (snd (makeDefault 0 1 twoFresh)))) = [Some 7, Some 7] \<and>
   boundGraphs (snd (bindToGraph 1 7 (snd (makeNext 0 1 twoFresh)))) = [Some 7, Some 7] \<and>
   map incomingStates (states (snd (makeDefault 0 1 twoFresh))) = [[], []] \<and>
   map incomingStates (states (snd (makeNext 0 1 twoFresh))) = [[], [0]]"
  by (simp add: twoFresh_def makeDefault_def makeNext_def modState_def addIncoming_def bindIfBound_def
        newState_def noProps_def boundGraphs_def bindToGraph.simps setContainingGraph_def
        whenBoundToGraph_def registerState_def registerSubGraphs_def outgoingTransitions_def allHandlers_def)

end
